theory Spec2Isabelle
  imports Complex_Main "HOL-Library.Multiset" "HOL-Library.List_Lexorder" "HOL-Library.Char_ord"
begin

section \<open>Errors\<close>

text \<open>
  The exceptions the Python code can raise, as values. A function that may raise returns
  \<open>error + 'a\<close>, with \<open>Inl\<close> for the exception.
\<close>

datatype error =
  KeyError | IndexError | ValueError | LinAlgError | AssertionError | FileNotFoundError

section \<open>General helpers of pops.py\<close>

subsection \<open>get_indices_in_target_order\<close>

text \<open>
  \<^verbatim>\<open>
  def get_indices_in_target_order(ref_list, target_names):
      ref_to_ind_mapper = {}
      for i, e in enumerate(ref_list):
          ref_to_ind_mapper[e] = i
      return np.array([ref_to_ind_mapper[t] for t in target_names])
  \<close>
  The dictionary is a map; the loop over \<open>enumerate\<close> is a recursion that carries the
  running index; the list comprehension raises KeyError at the first missing name.
\<close>

fun build_mapper :: "'a list \<Rightarrow> nat \<Rightarrow> ('a \<rightharpoonup> nat) \<Rightarrow> ('a \<rightharpoonup> nat)" where
  "build_mapper [] i m = m"
| "build_mapper (e # es) i m = build_mapper es (Suc i) (m(e \<mapsto> i))"

fun lookup_all :: "('a \<rightharpoonup> nat) \<Rightarrow> 'a list \<Rightarrow> error + nat list" where
  "lookup_all m [] = Inr []"
| "lookup_all m (t # ts) =
     (case m t of
        None \<Rightarrow> Inl KeyError
      | Some i \<Rightarrow> (case lookup_all m ts of Inl e \<Rightarrow> Inl e | Inr js \<Rightarrow> Inr (i # js)))"

definition get_indices_in_target_order :: "'a list \<Rightarrow> 'a list \<Rightarrow> error + nat list" where
  "get_indices_in_target_order ref_list target_names =
     lookup_all (build_mapper ref_list 0 Map.empty) target_names"

section \<open>Floating-point values with the special values of numpy\<close>

text \<open>
  A numpy float is a real number or one of the three special values. The comparisons of
  this section are exact; the arithmetic of float64, with its rounding, has a section of
  its own. \<open>NaN\<close> is the ``undefined'' statistic of the marginal-association table.
\<close>

datatype npfloat = NaN | NInf | PInf | Fin real

text \<open>The comparison \<open>a < b\<close> of IEEE floats: false as soon as one side is NaN.\<close>

fun fl_less :: "npfloat \<Rightarrow> npfloat \<Rightarrow> bool" where
  "fl_less NaN b = False"
| "fl_less a NaN = False"
| "fl_less a NInf = False"
| "fl_less NInf b = True"
| "fl_less PInf b = False"
| "fl_less (Fin x) PInf = True"
| "fl_less (Fin x) (Fin y) = (x < y)"

text \<open>\<open>pd.isnull\<close> on a float.\<close>

definition isnull :: "npfloat \<Rightarrow> bool" where
  "isnull a = (a = NaN)"

text \<open>
  The order \<open>sort_values\<close> sorts a float column by: ascending, NaN last
  (\<open>na_position='last'\<close>).
\<close>

fun sort_le :: "npfloat \<Rightarrow> npfloat \<Rightarrow> bool" where
  "sort_le a NaN = True"
| "sort_le NaN b = False"
| "sort_le a b = (\<not> fl_less b a)"

section \<open>Feature selection\<close>

text \<open>
  One row of the marginal-association data frame: the index entry (the feature name) and
  the columns beta, se, pval and r2.
\<close>

record assoc_row =
  name :: string
  beta :: npfloat
  se :: npfloat
  pval :: npfloat
  r2 :: npfloat

type_synonym assoc_df = "assoc_row list"

text \<open>
  \<open>df.loc[names]\<close> with a list of labels: the rows of each label, in the order of the
  list; KeyError when a label is not in the index.
\<close>

definition loc_rows :: "assoc_df \<Rightarrow> string list \<Rightarrow> error + assoc_df" where
  "loc_rows df names =
     (if \<exists>n \<in> set names. n \<notin> set (map name df) then Inl KeyError
      else Inr (concat (map (\<lambda>n. filter (\<lambda>r. name r = n) df) names)))"

text \<open>\<open>xs[:n]\<close> for a Python integer n: a negative n counts from the end.\<close>

definition slice_upto :: "int \<Rightarrow> 'a list \<Rightarrow> 'a list" where
  "slice_upto n xs = (if 0 \<le> n then take (nat n) xs else take (length xs - nat (- n)) xs)"

text \<open>
  What \<open>sort_values("pval")\<close> guarantees: the rows are permuted and come out ascending by
  p-value with NaN last. The default sorting algorithm of pandas is not stable, so the
  order among equal p-values is left open: the sort is a parameter \<open>sort_values\<close> of the
  model, and \<open>sorts_by_pval\<close> is all that is known of it.
\<close>

definition sorts_by_pval :: "(assoc_df \<Rightarrow> assoc_df) \<Rightarrow> bool" where
  "sorts_by_pval sort_values =
     (\<forall>df. mset (sort_values df) = mset df \<and>
           sorted_wrt (\<lambda>a b. sort_le (pval a) (pval b)) (sort_values df))"

text \<open>A stable insertion sort by p-value: one sort that meets \<open>sorts_by_pval\<close>.\<close>

fun insert_by_pval :: "assoc_row \<Rightarrow> assoc_df \<Rightarrow> assoc_df" where
  "insert_by_pval r [] = [r]"
| "insert_by_pval r (x # xs) =
     (if sort_le (pval r) (pval x) then r # x # xs else x # insert_by_pval r xs)"

fun stable_sort_values :: "assoc_df \<Rightarrow> assoc_df" where
  "stable_sort_values [] = []"
| "stable_sort_values (r # rs) = insert_by_pval r (stable_sort_values rs)"

text \<open>
  \<^verbatim>\<open>
  def select_features_from_marginal_assoc_df(marginal_assoc_df, subset_features_path,
          control_features_path, feature_selection_p_cutoff, feature_selection_max_num):
      if subset_features_path is not None:
          subset_features = np.loadtxt(subset_features_path, dtype=str).flatten()
          marginal_assoc_df = marginal_assoc_df.loc[subset_features]
      if control_features_path is not None:
          control_features = np.loadtxt(control_features_path, dtype=str).flatten()
          control_df = marginal_assoc_df[marginal_assoc_df.index.isin(control_features)]
          marginal_assoc_df = marginal_assoc_df[~marginal_assoc_df.index.isin(control_features)]
      if feature_selection_p_cutoff is not None:
          marginal_assoc_df = marginal_assoc_df[marginal_assoc_df.pval < feature_selection_p_cutoff]
      if feature_selection_max_num is not None:
          marginal_assoc_df = marginal_assoc_df.sort_values("pval").iloc[:feature_selection_max_num]
      selected_features = list(marginal_assoc_df.index.values)
      if control_features_path is not None:
          selected_features = selected_features + list(control_df.index.values)
      return selected_features
  \<close>
  The two paths are modelled by the lists of names their files hold (\<open>None\<close> when the
  path is \<open>None\<close>).
\<close>

definition select_features_from_marginal_assoc_df ::
  "(assoc_df \<Rightarrow> assoc_df) \<Rightarrow> assoc_df \<Rightarrow> string list option \<Rightarrow> string list option \<Rightarrow>
   npfloat option \<Rightarrow> int option \<Rightarrow> error + string list" where
  "select_features_from_marginal_assoc_df sort_values marginal_assoc_df subset_features
       control_features feature_selection_p_cutoff feature_selection_max_num =
     (case (case subset_features of
              None \<Rightarrow> Inr marginal_assoc_df
            | Some names \<Rightarrow> loc_rows marginal_assoc_df names) of
        Inl e \<Rightarrow> Inl e
      | Inr df1 \<Rightarrow>
          (let control_df = (case control_features of
                               None \<Rightarrow> []
                             | Some cs \<Rightarrow> filter (\<lambda>r. name r \<in> set cs) df1);
               df2 = (case control_features of
                        None \<Rightarrow> df1
                      | Some cs \<Rightarrow> filter (\<lambda>r. name r \<notin> set cs) df1);
               df3 = (case feature_selection_p_cutoff of
                        None \<Rightarrow> df2
                      | Some c \<Rightarrow> filter (\<lambda>r. fl_less (pval r) c) df2);
               df4 = (case feature_selection_max_num of
                        None \<Rightarrow> df3
                      | Some n \<Rightarrow> slice_upto n (sort_values df3))
           in Inr (map name df4 @ map name control_df)))"

text \<open>
  The lines of \<open>main\<close> that turn the selection into the final selected set:
  \<^verbatim>\<open>
  selected_features = select_features_from_marginal_assoc_df(marginal_assoc_df, ...)
  marginal_assoc_df["selected"] = marginal_assoc_df.index.isin(selected_features)
  marginal_assoc_df["selected"] = marginal_assoc_df["selected"] & ~pd.isnull(marginal_assoc_df.pval)
  selected_features = marginal_assoc_df[marginal_assoc_df.selected].index.values
  \<close>
  \<open>main_selected_column\<close> is the column \<open>selected\<close>, \<open>main_selected_features\<close> the
  redefined \<open>selected_features\<close>.
\<close>

definition main_selected_column ::
  "(assoc_df \<Rightarrow> assoc_df) \<Rightarrow> assoc_df \<Rightarrow> string list option \<Rightarrow> string list option \<Rightarrow>
   npfloat option \<Rightarrow> int option \<Rightarrow> error + bool list" where
  "main_selected_column sort_values marginal_assoc_df subset_features control_features
       feature_selection_p_cutoff feature_selection_max_num =
     (case select_features_from_marginal_assoc_df sort_values marginal_assoc_df subset_features
             control_features feature_selection_p_cutoff feature_selection_max_num of
        Inl e \<Rightarrow> Inl e
      | Inr selected_features \<Rightarrow>
          Inr (map (\<lambda>r. name r \<in> set selected_features \<and> \<not> isnull (pval r)) marginal_assoc_df))"

definition main_selected_features ::
  "(assoc_df \<Rightarrow> assoc_df) \<Rightarrow> assoc_df \<Rightarrow> string list option \<Rightarrow> string list option \<Rightarrow>
   npfloat option \<Rightarrow> int option \<Rightarrow> error + string list" where
  "main_selected_features sort_values marginal_assoc_df subset_features control_features
       feature_selection_p_cutoff feature_selection_max_num =
     (case main_selected_column sort_values marginal_assoc_df subset_features control_features
             feature_selection_p_cutoff feature_selection_max_num of
        Inl e \<Rightarrow> Inl e
      | Inr selected \<Rightarrow>
          Inr (map (\<lambda>p. name (fst p)) (filter snd (zip marginal_assoc_df selected))))"

text \<open>The table restricted to the rows whose name is in a list of names.\<close>

definition restrict_df :: "assoc_df \<Rightarrow> string list \<Rightarrow> assoc_df" where
  "restrict_df df names = filter (\<lambda>r. name r \<in> set names) df"

text \<open>
  Three notions the proofs about the selection use: a row is a control row, a row passes
  the cutoff, and the step \<open>sort_values("pval").iloc[:n]\<close>.
\<close>

definition is_control :: "string list option \<Rightarrow> assoc_row \<Rightarrow> bool" where
  "is_control control_features r =
     (case control_features of None \<Rightarrow> False | Some cs \<Rightarrow> name r \<in> set cs)"

definition passes_cutoff :: "npfloat option \<Rightarrow> assoc_row \<Rightarrow> bool" where
  "passes_cutoff p_cutoff r =
     (case p_cutoff of None \<Rightarrow> True | Some c \<Rightarrow> fl_less (pval r) c)"

definition limit_rows :: "(assoc_df \<Rightarrow> assoc_df) \<Rightarrow> int option \<Rightarrow> assoc_df \<Rightarrow> assoc_df" where
  "limit_rows sort_values max_num df =
     (case max_num of None \<Rightarrow> df | Some n \<Rightarrow> slice_upto n (sort_values df))"

section \<open>Natural sort order\<close>

text \<open>
  \<^verbatim>\<open>
  def natural_key(string_):
      return [int(s) if s.isdigit() else s for s in re.split(r'(\d+)', string_)]
  \<close>
  Strings are byte strings here, and a digit is one of the ten ASCII digits.
  \<open>re.split\<close> with the capturing group returns the pieces between the runs of digits
  and the runs themselves, in turn, beginning and ending with a piece that holds no digit
  (possibly empty).
\<close>

definition is_digit :: "char \<Rightarrow> bool" where
  "is_digit c = (CHR ''0'' \<le> c \<and> c \<le> CHR ''9'')"

function re_split_digits :: "string \<Rightarrow> string list" where
  "re_split_digits s =
     (if dropWhile (\<lambda>c. \<not> is_digit c) s = [] then [takeWhile (\<lambda>c. \<not> is_digit c) s]
      else takeWhile (\<lambda>c. \<not> is_digit c) s
           # takeWhile is_digit (dropWhile (\<lambda>c. \<not> is_digit c) s)
           # re_split_digits (dropWhile is_digit (dropWhile (\<lambda>c. \<not> is_digit c) s)))"
  by pat_completeness auto
termination
proof (relation "measure length")
  fix s :: string
  assume ne: "dropWhile (\<lambda>c. \<not> is_digit c) s \<noteq> []"
  let ?rest = "dropWhile (\<lambda>c. \<not> is_digit c) s"
  from ne obtain x xs where rest: "?rest = x # xs" by (cases ?rest) auto
  with hd_dropWhile [OF ne] have "is_digit x" by simp
  then have "length (dropWhile is_digit ?rest) \<le> length xs"
    by (simp add: rest length_dropWhile_le)
  also have "length xs < length ?rest" by (simp add: rest)
  also have "length ?rest \<le> length s" by (rule length_dropWhile_le)
  finally show "(dropWhile is_digit ?rest, s) \<in> measure length" by simp
qed simp

declare re_split_digits.simps [simp del]

text \<open>\<open>s.isdigit()\<close> and \<open>int(s)\<close> on a string of ASCII digits.\<close>

definition isdigit :: "string \<Rightarrow> bool" where
  "isdigit s = (s \<noteq> [] \<and> (\<forall>c \<in> set s. is_digit c))"

definition digit_val :: "char \<Rightarrow> nat" where
  "digit_val c = of_char c - of_char (CHR ''0'')"

definition int_of_digits :: "string \<Rightarrow> nat" where
  "int_of_digits s = foldl (\<lambda>n c. 10 * n + digit_val c) 0 s"

text \<open>An entry of a key is a string or an integer.\<close>

datatype key_part = KStr string | KInt nat

definition natural_key :: "string \<Rightarrow> key_part list" where
  "natural_key str =
     map (\<lambda>s. if isdigit s then KInt (int_of_digits s) else KStr s) (re_split_digits str)"

text \<open>
  Python compares two keys as lists: the first position where they differ decides, and a
  proper prefix is smaller. Two integers compare as numbers, two strings by code points.
  Comparing an integer with a string raises TypeError in Python; the order below puts the
  string first instead, and \<open>natural_key_shape\<close> shows that the keys of \<open>natural_key\<close>
  never meet this case: they hold strings at the even positions and integers at the odd
  ones.
\<close>

instantiation key_part :: linorder
begin

definition less_eq_key_part :: "key_part \<Rightarrow> key_part \<Rightarrow> bool" where
  "less_eq_key_part a b =
     (case a of
        KStr s \<Rightarrow> (case b of KStr t \<Rightarrow> s \<le> t | KInt n \<Rightarrow> True)
      | KInt m \<Rightarrow> (case b of KStr t \<Rightarrow> False | KInt n \<Rightarrow> m \<le> n))"

definition less_key_part :: "key_part \<Rightarrow> key_part \<Rightarrow> bool" where
  "less_key_part a b = (a \<le> b \<and> \<not> b \<le> a)"

instance
  by standard (auto simp: less_eq_key_part_def less_key_part_def split: key_part.splits)

end

section \<open>Loading the feature matrix\<close>


text \<open>Number of columns of a matrix; a matrix without rows counts as without columns.\<close>

definition ncols :: "'a list list \<Rightarrow> nat" where
  "ncols mat = (case mat of [] \<Rightarrow> 0 | r # _ \<Rightarrow> length r)"

text \<open>Indexing one axis with a list of booleans: \<open>cols[keep_inds]\<close>, \<open>mat[:,keep_inds]\<close>.\<close>

definition keep_columns :: "bool list \<Rightarrow> 'a list \<Rightarrow> 'a list" where
  "keep_columns keep_inds xs = map fst (filter snd (zip xs keep_inds))"









section \<open>Arrays of numbers\<close>

text \<open>
  A one-dimensional array is a list of reals, a two-dimensional array the list of its rows.
  The arithmetic is that of the real numbers: rounding is not modelled. These arrays serve
  the block operations and the projections; the regulariser and the marginal regressions
  compute on arrays of floats.
\<close>

type_synonym vec = "real list"
type_synonym mat = "real list list"

definition is_mat :: "nat \<Rightarrow> nat \<Rightarrow> mat \<Rightarrow> bool" where
  "is_mat n m A = (length A = n \<and> (\<forall>r \<in> set A. length r = m))"

definition zeros :: "nat \<Rightarrow> nat \<Rightarrow> mat" where
  "zeros n m = replicate n (replicate m 0)"

definition eye :: "nat \<Rightarrow> mat" where
  "eye n = map (\<lambda>i. map (\<lambda>j. if i = j then 1 else 0) [0..<n]) [0..<n]"

definition dot :: "vec \<Rightarrow> vec \<Rightarrow> real" where
  "dot u v = sum_list (map2 (*) u v)"

definition col :: "'a list list \<Rightarrow> nat \<Rightarrow> 'a list" where
  "col A j = map (\<lambda>r. r ! j) A"

definition transpose_mat :: "mat \<Rightarrow> mat" where
  "transpose_mat A = map (col A) [0..<ncols A]"

text \<open>\<open>A.dot(B)\<close> for two matrices, and for a matrix and a vector.\<close>

definition mat_mul :: "mat \<Rightarrow> mat \<Rightarrow> mat" where
  "mat_mul A B = map (\<lambda>r. map (\<lambda>j. dot r (col B j)) [0..<ncols B]) A"

definition mat_vec :: "mat \<Rightarrow> vec \<Rightarrow> vec" where
  "mat_vec A v = map (\<lambda>r. dot r v) A"

section \<open>Block operations\<close>

text \<open>
  \<open>subset_ind = (block_labels == l)\<close> is a boolean mask; \<open>np.ix_\<close> turns it into the
  increasing list of the positions where it is True.
\<close>

definition block_indices :: "'l list \<Rightarrow> 'l \<Rightarrow> nat list" where
  "block_indices block_labels l =
     filter (\<lambda>i. block_labels ! i = l) [0..<length block_labels]"

text \<open>
  \<open>A[np.ix_(subset_ind, subset_ind)]\<close>: the entries at the rows and columns of the
  block; IndexError when a position is outside the array.
\<close>

definition get_block :: "'a list list \<Rightarrow> nat list \<Rightarrow> error + 'a list list" where
  "get_block A ind =
     (if \<exists>i \<in> set ind. length A \<le> i \<or> ncols A \<le> i then Inl IndexError
      else Inr (map (\<lambda>i. map (\<lambda>j. A ! i ! j) ind) ind))"

text \<open>The place of a position in the list of positions of its block.\<close>

definition place :: "nat list \<Rightarrow> nat \<Rightarrow> nat" where
  "place ind i = length (takeWhile (\<lambda>k. k \<noteq> i) ind)"

text \<open>
  \<open>Linv[np.ix_(subset_ind, subset_ind)] = M\<close>: the entries at the rows and columns of
  the block are overwritten by M, the others stay.
\<close>

definition set_block :: "mat \<Rightarrow> nat list \<Rightarrow> mat \<Rightarrow> mat" where
  "set_block L ind M =
     map (\<lambda>i. map (\<lambda>j. if i \<in> set ind \<and> j \<in> set ind then M ! place ind i ! place ind j
                        else L ! i ! j) [0..<length (L ! i)]) [0..<length L]"

text \<open>
  \<^verbatim>\<open>
  def block_Linv(A, block_labels):
      block_labels = np.array(block_labels)
      Linv = np.zeros(A.shape)
      for l in set(block_labels):
          subset_ind = (block_labels == l)
          sub_A = A[np.ix_(subset_ind, subset_ind)]
          Linv[np.ix_(subset_ind, subset_ind)] = np.linalg.inv(np.linalg.cholesky(sub_A))
      return Linv
  \<close>
  \<open>np.linalg.cholesky\<close> and \<open>np.linalg.inv\<close> are library functions: they are the
  parameters \<open>cholesky\<close> and \<open>linalg_inv\<close> of the model, and \<open>None\<close> is their LinAlgError.
  The loop runs over the distinct labels; the blocks are disjoint, so the order in which
  Python enumerates the set does not show in the result. A matrix of the wrong shape cannot
  be assigned to the block (ValueError).
\<close>

fun block_Linv_loop ::
  "(mat \<Rightarrow> mat option) \<Rightarrow> (mat \<Rightarrow> mat option) \<Rightarrow> mat \<Rightarrow> 'l list \<Rightarrow> 'l list \<Rightarrow> mat \<Rightarrow>
   error + mat" where
  "block_Linv_loop cholesky linalg_inv A block_labels [] Linv = Inr Linv"
| "block_Linv_loop cholesky linalg_inv A block_labels (l # ls) Linv =
     (case get_block A (block_indices block_labels l) of
        Inl e \<Rightarrow> Inl e
      | Inr sub_A \<Rightarrow>
          (case cholesky sub_A of
             None \<Rightarrow> Inl LinAlgError
           | Some C \<Rightarrow>
               (case linalg_inv C of
                  None \<Rightarrow> Inl LinAlgError
                | Some M \<Rightarrow>
                    if \<not> is_mat (length sub_A) (length sub_A) M then Inl ValueError
                    else block_Linv_loop cholesky linalg_inv A block_labels ls
                           (set_block Linv (block_indices block_labels l) M))))"

definition block_Linv ::
  "(mat \<Rightarrow> mat option) \<Rightarrow> (mat \<Rightarrow> mat option) \<Rightarrow> mat \<Rightarrow> 'l list \<Rightarrow> error + mat" where
  "block_Linv cholesky linalg_inv A block_labels =
     block_Linv_loop cholesky linalg_inv A block_labels (remdups block_labels)
       (zeros (length A) (ncols A))"

text \<open>
  \<open>B[subset_ind]\<close> and \<open>new_B[subset_ind] = R\<close>: the rows of the block. The mask must
  be as long as the array has rows (IndexError).
\<close>

definition get_rows :: "'a list \<Rightarrow> nat list \<Rightarrow> 'a list" where
  "get_rows B ind = map (\<lambda>i. B ! i) ind"

definition set_rows :: "'a list \<Rightarrow> nat list \<Rightarrow> 'a list \<Rightarrow> 'a list" where
  "set_rows B ind R = map (\<lambda>i. if i \<in> set ind then R ! place ind i else B ! i) [0..<length B]"

text \<open>
  \<^verbatim>\<open>
  def block_AB(A, block_labels, B):
      block_labels = np.array(block_labels)
      new_B = np.zeros(B.shape)
      for l in set(block_labels):
          subset_ind = (block_labels == l)
          new_B[subset_ind] = A[np.ix_(subset_ind, subset_ind)].dot(B[subset_ind])
      return new_B
  \<close>
  \<open>block_AB\<close> is the function on a two-dimensional B, \<open>block_Av\<close> the same function on a
  one-dimensional B.
\<close>

fun block_AB_loop :: "mat \<Rightarrow> 'l list \<Rightarrow> mat \<Rightarrow> 'l list \<Rightarrow> mat \<Rightarrow> error + mat" where
  "block_AB_loop A block_labels B [] new_B = Inr new_B"
| "block_AB_loop A block_labels B (l # ls) new_B =
     (if length block_labels \<noteq> length B then Inl IndexError
      else case get_block A (block_indices block_labels l) of
        Inl e \<Rightarrow> Inl e
      | Inr sub_A \<Rightarrow>
          block_AB_loop A block_labels B ls
            (set_rows new_B (block_indices block_labels l)
               (mat_mul sub_A (get_rows B (block_indices block_labels l)))))"

definition block_AB :: "mat \<Rightarrow> 'l list \<Rightarrow> mat \<Rightarrow> error + mat" where
  "block_AB A block_labels B =
     block_AB_loop A block_labels B (remdups block_labels) (zeros (length B) (ncols B))"

fun block_Av_loop :: "mat \<Rightarrow> 'l list \<Rightarrow> vec \<Rightarrow> 'l list \<Rightarrow> vec \<Rightarrow> error + vec" where
  "block_Av_loop A block_labels B [] new_B = Inr new_B"
| "block_Av_loop A block_labels B (l # ls) new_B =
     (if length block_labels \<noteq> length B then Inl IndexError
      else case get_block A (block_indices block_labels l) of
        Inl e \<Rightarrow> Inl e
      | Inr sub_A \<Rightarrow>
          block_Av_loop A block_labels B ls
            (set_rows new_B (block_indices block_labels l)
               (mat_vec sub_A (get_rows B (block_indices block_labels l)))))"

definition block_Av :: "mat \<Rightarrow> 'l list \<Rightarrow> vec \<Rightarrow> error + vec" where
  "block_Av A block_labels B =
     block_Av_loop A block_labels B (remdups block_labels) (replicate (length B) 0)"

text \<open>
  \<^verbatim>\<open>
  def block_BA(A, block_labels, B):
      block_labels = np.array(block_labels)
      new_B = np.zeros(B.shape)
      for l in set(block_labels):
          subset_ind = (block_labels == l)
          new_B[:,subset_ind] = B[:,subset_ind].dot(A[np.ix_(subset_ind, subset_ind)])
      return new_B
  \<close>
  Here the mask selects columns of B, and must be as long as B has columns.
\<close>

fun block_BA_loop :: "mat \<Rightarrow> 'l list \<Rightarrow> mat \<Rightarrow> 'l list \<Rightarrow> mat \<Rightarrow> error + mat" where
  "block_BA_loop A block_labels B [] new_B = Inr new_B"
| "block_BA_loop A block_labels B (l # ls) new_B =
     (if length block_labels \<noteq> ncols B then Inl IndexError
      else case get_block A (block_indices block_labels l) of
        Inl e \<Rightarrow> Inl e
      | Inr sub_A \<Rightarrow>
          block_BA_loop A block_labels B ls
            (map2 (\<lambda>new_row row. set_rows new_row (block_indices block_labels l) row)
               new_B
               (mat_mul (map (\<lambda>row. get_rows row (block_indices block_labels l)) B) sub_A)))"

definition block_BA :: "mat \<Rightarrow> 'l list \<Rightarrow> mat \<Rightarrow> error + mat" where
  "block_BA A block_labels B =
     block_BA_loop A block_labels B (remdups block_labels) (zeros (length B) (ncols B))"

text \<open>
  Two matrices of the same shape agree within the blocks of a labelling when they have
  the same entry wherever the row and the column carry the same label.
\<close>

definition same_shape :: "mat \<Rightarrow> mat \<Rightarrow> bool" where
  "same_shape A A' = (length A = length A' \<and> ncols A = ncols A')"

definition agree_within_blocks :: "'l list \<Rightarrow> mat \<Rightarrow> mat \<Rightarrow> bool" where
  "agree_within_blocks block_labels A A' =
     (\<forall>i < length block_labels. \<forall>j < length block_labels.
        block_labels ! i = block_labels ! j \<longrightarrow> A ! i ! j = A' ! i ! j)"

text \<open>
  What is assumed of the two library functions, whenever they return: \<open>cholesky\<close>
  returns a square factor C of its argument, the product of C and its transpose being the
  argument; \<open>linalg_inv\<close> returns a left inverse of its argument.
\<close>

definition cholesky_sound :: "(mat \<Rightarrow> mat option) \<Rightarrow> bool" where
  "cholesky_sound cholesky =
     (\<forall>S C. cholesky S = Some C \<longrightarrow>
        is_mat (length S) (length S) C \<and> mat_mul C (transpose_mat C) = S)"

definition inv_sound :: "(mat \<Rightarrow> mat option) \<Rightarrow> bool" where
  "inv_sound linalg_inv =
     (\<forall>C M. linalg_inv C = Some M \<longrightarrow>
        is_mat (length C) (length C) M \<and> mat_mul M C = eye (length C))"

text \<open>
  The two library functions succeed on every block of A, as they do on the blocks of a
  symmetric positive-definite matrix.
\<close>

definition blocks_factorable ::
  "(mat \<Rightarrow> mat option) \<Rightarrow> (mat \<Rightarrow> mat option) \<Rightarrow> mat \<Rightarrow> 'l list \<Rightarrow> bool" where
  "blocks_factorable cholesky linalg_inv A block_labels =
     (\<forall>l \<in> set block_labels. \<exists>sub_A C M.
        get_block A (block_indices block_labels l) = Inr sub_A \<and>
        cholesky sub_A = Some C \<and> linalg_inv C = Some M)"

text \<open>The inverse of the Cholesky factor of the block of a label (empty if there is none).\<close>

definition inv_chol_block ::
  "(mat \<Rightarrow> mat option) \<Rightarrow> (mat \<Rightarrow> mat option) \<Rightarrow> mat \<Rightarrow> 'l list \<Rightarrow> 'l \<Rightarrow> mat" where
  "inv_chol_block cholesky linalg_inv A block_labels l =
     (case get_block A (block_indices block_labels l) of
        Inl e \<Rightarrow> []
      | Inr sub_A \<Rightarrow>
          (case cholesky sub_A of
             None \<Rightarrow> []
           | Some C \<Rightarrow> (case linalg_inv C of None \<Rightarrow> [] | Some M \<Rightarrow> M)))"

text \<open>A matrix is block-diagonal: its entries are zero where the labels differ.\<close>

definition block_diagonal :: "'l list \<Rightarrow> mat \<Rightarrow> bool" where
  "block_diagonal block_labels A =
     (\<forall>i < length block_labels. \<forall>j < length block_labels.
        block_labels ! i \<noteq> block_labels ! j \<longrightarrow> A ! i ! j = 0)"

text \<open>
  Cholesky factor and inverse of matrices with one row and one column only: two functions
  that are sound in the sense above.
\<close>

definition cholesky_1x1 :: "mat \<Rightarrow> mat option" where
  "cholesky_1x1 S = (case S of [[a]] \<Rightarrow> if 0 < a then Some [[sqrt a]] else None | _ \<Rightarrow> None)"

definition inv_1x1 :: "mat \<Rightarrow> mat option" where
  "inv_1x1 C = (case C of [[c]] \<Rightarrow> if c \<noteq> 0 then Some [[1 / c]] else None | _ \<Rightarrow> None)"

section \<open>Gene annotation\<close>

text \<open>
  The gene annotation data frame, indexed by gene identifier, with the columns CHR (a
  string; the field \<open>chrom\<close>) and TSS (the field \<open>tss\<close>). \<open>gene_annot_df.loc[genes].CHR.values\<close> raises KeyError when a gene is
  not in the index.
\<close>

record gene_annot =
  chrom :: string
  tss :: int

type_synonym gene_annot_df = "string \<rightharpoonup> gene_annot"

fun loc_CHR :: "gene_annot_df \<Rightarrow> string list \<Rightarrow> error + string list" where
  "loc_CHR gene_annot_df [] = Inr []"
| "loc_CHR gene_annot_df (g # gs) =
     (case gene_annot_df g of
        None \<Rightarrow> Inl KeyError
      | Some a \<Rightarrow> (case loc_CHR gene_annot_df gs of Inl e \<Rightarrow> Inl e | Inr cs \<Rightarrow> Inr (chrom a # cs)))"

section \<open>Float64 arithmetic\<close>

text \<open>
  The arrays that the regulariser and the marginal regressions compute with hold IEEE 754
  binary64 numbers (numpy's float64). A finite float is \<open>Fin x\<close> for a real x of the form
  m * 2^e with \<bar>m\<bar> < 2^53 and - 1074 \<le> e \<le> 971; every operation returns the exact result
  rounded to the nearest such number, ties to the even m, and an infinity from 2^1024 on.
  The two zeros of IEEE 754 are one value here, \<open>Fin 0\<close>; a division by zero takes the
  divisor for the positive zero.

  \<open>rne\<close> rounds a real to the nearest integer, ties to even. \<open>ilog2 x\<close> is the integer k
  with 2^k \<le> x < 2^(k+1), for a positive x. \<open>round64\<close> rounds a real to float64: the
  spacing of the floats around x is 2^e with e = max(k, - 1022) - 52.
\<close>

definition rne :: "real \<Rightarrow> int" where
  "rne x =
     (let f = \<lfloor>x\<rfloor>; d = x - of_int f
      in if d < 1 / 2 then f else if 1 / 2 < d then f + 1 else if even f then f else f + 1)"

function ilog2 :: "real \<Rightarrow> int" where
  "ilog2 x =
     (if x \<le> 0 then 0
      else if x < 1 then ilog2 (2 * x) - 1
      else if 2 \<le> x then ilog2 (x / 2) + 1
      else 0)"
  by pat_completeness auto

termination
proof (relation "measure (\<lambda>x. nat \<bar>\<lfloor>log 2 x\<rfloor>\<bar>)")
  show "wf (measure (\<lambda>x. nat \<bar>\<lfloor>log 2 x\<rfloor>\<bar>))" by simp
next
  fix x :: real
  assume a: "\<not> x \<le> 0" "x < 1"
  then have "log 2 (2 * x) = log 2 x + 1" by (simp add: log_mult)
  then have f: "\<lfloor>log 2 (2 * x)\<rfloor> = \<lfloor>log 2 x\<rfloor> + 1" by simp
  from a have "log 2 x < 0" by simp
  then have "\<lfloor>log 2 x\<rfloor> < 0" by linarith
  with f have "nat \<bar>\<lfloor>log 2 (2 * x)\<rfloor>\<bar> < nat \<bar>\<lfloor>log 2 x\<rfloor>\<bar>" by linarith
  then show "(2 * x, x) \<in> measure (\<lambda>x. nat \<bar>\<lfloor>log 2 x\<rfloor>\<bar>)" by simp
next
  fix x :: real
  assume a: "\<not> x \<le> 0" "\<not> x < 1" "2 \<le> x"
  then have "log 2 (x / 2) = log 2 x - 1" by (simp add: log_divide)
  then have f: "\<lfloor>log 2 (x / 2)\<rfloor> = \<lfloor>log 2 x\<rfloor> - 1" by simp
  from a have "1 \<le> log 2 x" by (simp add: le_log_iff)
  then have "1 \<le> \<lfloor>log 2 x\<rfloor>" by linarith
  with f have "nat \<bar>\<lfloor>log 2 (x / 2)\<rfloor>\<bar> < nat \<bar>\<lfloor>log 2 x\<rfloor>\<bar>" by linarith
  then show "(x / 2, x) \<in> measure (\<lambda>x. nat \<bar>\<lfloor>log 2 x\<rfloor>\<bar>)" by simp
qed

declare ilog2.simps [simp del]

definition ulp_exp :: "real \<Rightarrow> int" where
  "ulp_exp x = max (ilog2 \<bar>x\<bar>) (- 1022) - 52"

definition grid64 :: "real \<Rightarrow> real" where
  "grid64 x = of_int (rne (x / 2 powi ulp_exp x)) * 2 powi ulp_exp x"

definition round64 :: "real \<Rightarrow> npfloat" where
  "round64 x =
     (if 2 powi 1024 \<le> grid64 x then PInf
      else if grid64 x \<le> - (2 powi 1024) then NInf
      else Fin (grid64 x))"

text \<open>A real number is a float64 when rounding leaves it as it is.\<close>

definition is_float64 :: "real \<Rightarrow> bool" where
  "is_float64 x = (round64 x = Fin x)"



text \<open>The real number that a finite float is (and zero for the special values).\<close>

definition real_of :: "npfloat \<Rightarrow> real" where
  "real_of a = (case a of Fin x \<Rightarrow> x | _ \<Rightarrow> 0)"

text \<open>
  The operations of IEEE 754 on float64, as the operators of numpy and of Python compute
  them: negation and absolute value are exact; a sum, a difference, a product, a quotient
  and a square root are the rounded exact results, with the rules for NaN and the
  infinities. \<open>signed_inf x\<close> is the result of an infinity times x and of x over zero.
\<close>

fun fneg :: "npfloat \<Rightarrow> npfloat" where
  "fneg NaN = NaN"
| "fneg NInf = PInf"
| "fneg PInf = NInf"
| "fneg (Fin x) = Fin (- x)"


definition signed_inf :: "real \<Rightarrow> npfloat" where
  "signed_inf x = (if x = 0 then NaN else if 0 < x then PInf else NInf)"

fun fadd :: "npfloat \<Rightarrow> npfloat \<Rightarrow> npfloat" where
  "fadd (Fin x) (Fin y) = round64 (x + y)"
| "fadd NaN b = NaN"
| "fadd a NaN = NaN"
| "fadd PInf NInf = NaN"
| "fadd NInf PInf = NaN"
| "fadd PInf b = PInf"
| "fadd NInf b = NInf"
| "fadd a PInf = PInf"
| "fadd a NInf = NInf"

definition fsub :: "npfloat \<Rightarrow> npfloat \<Rightarrow> npfloat" where
  "fsub a b = fadd a (fneg b)"

fun fmul :: "npfloat \<Rightarrow> npfloat \<Rightarrow> npfloat" where
  "fmul (Fin x) (Fin y) = round64 (x * y)"
| "fmul NaN b = NaN"
| "fmul a NaN = NaN"
| "fmul PInf (Fin y) = signed_inf y"
| "fmul NInf (Fin y) = signed_inf (- y)"
| "fmul (Fin x) PInf = signed_inf x"
| "fmul (Fin x) NInf = signed_inf (- x)"
| "fmul PInf PInf = PInf"
| "fmul PInf NInf = NInf"
| "fmul NInf PInf = NInf"
| "fmul NInf NInf = PInf"

fun fdiv :: "npfloat \<Rightarrow> npfloat \<Rightarrow> npfloat" where
  "fdiv (Fin x) (Fin y) = (if y = 0 then signed_inf x else round64 (x / y))"
| "fdiv NaN b = NaN"
| "fdiv a NaN = NaN"
| "fdiv PInf (Fin y) = (if 0 \<le> y then PInf else NInf)"
| "fdiv NInf (Fin y) = (if 0 \<le> y then NInf else PInf)"
| "fdiv (Fin x) b = Fin 0"
| "fdiv a b = NaN"

fun fsqrt :: "npfloat \<Rightarrow> npfloat" where
  "fsqrt NaN = NaN"
| "fsqrt NInf = NaN"
| "fsqrt PInf = PInf"
| "fsqrt (Fin x) = (if x < 0 then NaN else round64 (sqrt x))"




text \<open>
  \<open>np.isclose(x, 0)\<close> with the default tolerances: for a finite x the test is
  \<bar>x - 0\<bar> \<le> atol + rtol * \<bar>0\<bar>, where the left side is \<bar>x\<bar> and the right side is the float
  1e-8, which is 3022314549036573 / 2^78; an infinity and NaN are not close to zero.
\<close>

definition isclose_zero :: "npfloat \<Rightarrow> bool" where
  "isclose_zero a = (case a of Fin x \<Rightarrow> \<bar>x\<bar> \<le> 3022314549036573 / 2 ^ 78 | _ \<Rightarrow> False)"

text \<open>Arrays of floats, and the shape of a two-dimensional one.\<close>

type_synonym fvec = "npfloat list"
type_synonym fmat = "npfloat list list"


text \<open>
  The reductions \<open>np.sum\<close>, \<open>np.mean\<close>, \<open>np.var\<close> and \<open>dot\<close> are library functions whose
  order of summation numpy does not fix (it depends on the memory layout and on the
  length); they are parameters of the functions that call them. The following instances
  add from left to right.
\<close>

definition seq_sum :: "fvec \<Rightarrow> npfloat" where
  "seq_sum xs = foldl fadd (Fin 0) xs"

definition seq_mean :: "fvec \<Rightarrow> npfloat" where
  "seq_mean xs = fdiv (seq_sum xs) (Fin (real (length xs)))"

definition seq_var :: "fvec \<Rightarrow> npfloat" where
  "seq_var xs =
     seq_mean (map (\<lambda>x. fmul (fsub x (seq_mean xs)) (fsub x (seq_mean xs))) xs)"

definition seq_dot :: "fvec \<Rightarrow> fvec \<Rightarrow> npfloat" where
  "seq_dot u v = seq_sum (map2 fmul u v)"

section \<open>Regularising the error covariance\<close>














section \<open>Gene subsets\<close>




section \<open>Indexing arrays\<close>

text \<open>
  \<open>a[mask]\<close> with a boolean array: IndexError when the mask is not as long as the
  array. \<open>np.ix_(mask, mask)\<close> uses the positions where the mask is True.
  \<open>a[idx]\<close> with an array of positions: IndexError for a position outside the array,
  and for an empty array of positions, which numpy creates as an array of floats.
\<close>

definition bool_index :: "'a list \<Rightarrow> bool list \<Rightarrow> error + 'a list" where
  "bool_index a msk =
     (if length msk \<noteq> length a then Inl IndexError else Inr (keep_columns msk a))"

definition nonzero :: "bool list \<Rightarrow> nat list" where
  "nonzero msk = filter (\<lambda>i. msk ! i) [0..<length msk]"

definition int_index :: "'a list \<Rightarrow> nat list \<Rightarrow> error + 'a list" where
  "int_index a idx =
     (if idx = [] \<or> (\<exists>i \<in> set idx. length a \<le> i) then Inl IndexError
      else Inr (map (\<lambda>i. a ! i) idx))"

section \<open>Projections\<close>

definition mat_sub :: "mat \<Rightarrow> mat \<Rightarrow> mat" where
  "mat_sub A B = map2 (map2 (-)) A B"

definition ones :: "nat \<Rightarrow> mat" where
  "ones n = replicate n [1]"

text \<open>
  \<^verbatim>\<open>
  def project_out_V(M, V):
      gram_inv = np.linalg.inv(V.T.dot(V))
      moment = V.T.dot(M)
      betas = gram_inv.dot(moment)
      M_res = M - V.dot(betas)
      return M_res
  \<close>
\<close>

definition project_out_V :: "(mat \<Rightarrow> mat option) \<Rightarrow> mat \<Rightarrow> mat \<Rightarrow> error + mat" where
  "project_out_V linalg_inv M V =
     (case linalg_inv (mat_mul (transpose_mat V) V) of
        None \<Rightarrow> Inl LinAlgError
      | Some gram_inv \<Rightarrow>
          (let moment = mat_mul (transpose_mat V) M;
               betas = mat_mul gram_inv moment
           in Inr (mat_sub M (mat_mul V betas))))"

text \<open>\<open>v.reshape(-1,1)\<close> and \<open>M.flatten()\<close>.\<close>

definition reshape_column :: "vec \<Rightarrow> mat" where
  "reshape_column v = map (\<lambda>x. [x]) v"

definition flatten :: "mat \<Rightarrow> vec" where
  "flatten M = concat M"

section \<open>Building the training data\<close>

text \<open>
  \<^verbatim>\<open>
  def build_training(mat, cols, rows, Y, Y_indices, error_cov, gene_annot_df,
                     training_Y_gene_inds, project_out_intercept=True):
      training_genes = Y_indices[training_Y_gene_inds]
      sub_Y = Y[training_Y_gene_inds]
      intercept = np.ones((sub_Y.shape[0], 1))
      X_train_inds = get_indices_in_target_order(rows, training_genes)
      X = mat[X_train_inds]
      assert (rows[X_train_inds] == training_genes).all(), "Something went wrong. This shouldn't happen."
      if error_cov is not None:
          sub_error_cov = error_cov[np.ix_(training_Y_gene_inds, training_Y_gene_inds)]
          sub_error_cov_labels = gene_annot_df.loc[training_genes].CHR.values
          Linv = block_Linv(sub_error_cov, sub_error_cov_labels)
          sub_Y = block_AB(Linv, sub_error_cov_labels, sub_Y)
          X = block_AB(Linv, sub_error_cov_labels, X)
          intercept = block_AB(Linv, sub_error_cov_labels, intercept)
      if project_out_intercept == True:
          sub_Y = project_out_V(sub_Y.reshape(-1,1), intercept).flatten()
          X = project_out_V(X, intercept)
      return X, sub_Y
  \<close>
  \<open>whiten\<close> is the branch for an error covariance, \<open>project_intercept\<close> the branch
  that projects the intercept out.
\<close>

definition whiten ::
  "(mat \<Rightarrow> mat option) \<Rightarrow> (mat \<Rightarrow> mat option) \<Rightarrow> mat \<Rightarrow> bool list \<Rightarrow> gene_annot_df \<Rightarrow>
   string list \<Rightarrow> vec \<Rightarrow> mat \<Rightarrow> mat \<Rightarrow> error + (vec \<times> mat \<times> mat)" where
  "whiten cholesky linalg_inv error_cov gene_inds gene_annot_df genes sub_Y X intercept =
     (case get_block error_cov (nonzero gene_inds) of
        Inl e \<Rightarrow> Inl e
      | Inr sub_error_cov \<Rightarrow>
     (case loc_CHR gene_annot_df genes of
        Inl e \<Rightarrow> Inl e
      | Inr sub_error_cov_labels \<Rightarrow>
     (case block_Linv cholesky linalg_inv sub_error_cov sub_error_cov_labels of
        Inl e \<Rightarrow> Inl e
      | Inr Linv \<Rightarrow>
     (case block_Av Linv sub_error_cov_labels sub_Y of
        Inl e \<Rightarrow> Inl e
      | Inr sub_Y' \<Rightarrow>
     (case block_AB Linv sub_error_cov_labels X of
        Inl e \<Rightarrow> Inl e
      | Inr X' \<Rightarrow>
     (case block_AB Linv sub_error_cov_labels intercept of
        Inl e \<Rightarrow> Inl e
      | Inr intercept' \<Rightarrow> Inr (sub_Y', X', intercept')))))))"

definition project_intercept ::
  "(mat \<Rightarrow> mat option) \<Rightarrow> vec \<Rightarrow> mat \<Rightarrow> mat \<Rightarrow> error + (mat \<times> vec)" where
  "project_intercept linalg_inv sub_Y X intercept =
     (case project_out_V linalg_inv (reshape_column sub_Y) intercept of
        Inl e \<Rightarrow> Inl e
      | Inr sub_Y' \<Rightarrow>
          (case project_out_V linalg_inv X intercept of
             Inl e \<Rightarrow> Inl e
           | Inr X' \<Rightarrow> Inr (X', flatten sub_Y')))"

definition build_training ::
  "(mat \<Rightarrow> mat option) \<Rightarrow> (mat \<Rightarrow> mat option) \<Rightarrow> mat \<Rightarrow> string list \<Rightarrow> string list \<Rightarrow> vec \<Rightarrow>
   string list \<Rightarrow> mat option \<Rightarrow> gene_annot_df \<Rightarrow> bool list \<Rightarrow> bool \<Rightarrow> error + (mat \<times> vec)" where
  "build_training cholesky linalg_inv mat cols rows Y Y_indices error_cov gene_annot_df
       training_Y_gene_inds project_out_intercept =
     (case bool_index Y_indices training_Y_gene_inds of
        Inl e \<Rightarrow> Inl e
      | Inr training_genes \<Rightarrow>
     (case bool_index Y training_Y_gene_inds of
        Inl e \<Rightarrow> Inl e
      | Inr sub_Y \<Rightarrow>
     (case get_indices_in_target_order rows training_genes of
        Inl e \<Rightarrow> Inl e
      | Inr X_train_inds \<Rightarrow>
     (case int_index mat X_train_inds of
        Inl e \<Rightarrow> Inl e
      | Inr X \<Rightarrow>
     (case int_index rows X_train_inds of
        Inl e \<Rightarrow> Inl e
      | Inr rows_at_inds \<Rightarrow>
          if rows_at_inds \<noteq> training_genes then Inl AssertionError
          else
     (case (case error_cov of
              None \<Rightarrow> Inr (sub_Y, X, ones (length sub_Y))
            | Some ec \<Rightarrow> whiten cholesky linalg_inv ec training_Y_gene_inds gene_annot_df
                          training_genes sub_Y X (ones (length sub_Y))) of
        Inl e \<Rightarrow> Inl e
      | Inr (sub_Y', X', intercept) \<Rightarrow>
          if project_out_intercept then project_intercept linalg_inv sub_Y' X' intercept
          else Inr (X', sub_Y')))))))"

section \<open>Projecting out covariates\<close>










section \<open>Marginal regressions\<close>

text \<open>
  \<^verbatim>\<open>
  def batch_marginal_ols(Y, X):
      old_settings = np.seterr(divide='ignore')
      sum_sq_X = np.sum(np.square(X), axis=0)
      near_const_0 = np.isclose(sum_sq_X, 0)
      sum_sq_X_safe = sum_sq_X.copy()
      sum_sq_X_safe[near_const_0] = 1
      betas = Y.dot(X) / sum_sq_X_safe
      mse = np.mean(np.square(Y.reshape(-1,1) - X * betas), axis=0)
      se = np.sqrt(mse / sum_sq_X_safe)
      z = betas / se
      chi2 = np.square(z)
      pvals = scipy.stats.chi2.sf(chi2, 1)
      r2 = 1 - (mse / np.var(Y))
      betas[near_const_0] = np.nan
      se[near_const_0] = np.nan
      pvals[near_const_0] = np.nan
      r2[near_const_0] = np.nan
      np.seterr(**old_settings)
      return betas, se, pvals, r2
  \<close>
  Y is a one-dimensional and X a two-dimensional array of float64. The first three
  definitions are the local variables of the same names. The reductions \<open>np.sum\<close>,
  \<open>Y.dot\<close>, \<open>np.mean\<close> and \<open>np.var\<close>, and \<open>scipy.stats.chi2.sf(., 1)\<close>, are library
  functions: the parameters \<open>np_sum\<close>, \<open>np_dot\<close>, \<open>np_mean\<close>, \<open>np_var\<close> and \<open>chi2_sf\<close>; the
  first three are applied to one column at a time. The other operations work entry by
  entry, in float64. With the error state set by \<open>np.seterr\<close>, and with the other
  floating-point errors in their default state, no division raises. \<open>Y.dot(X)\<close> raises
  ValueError when Y is not as long as X has rows.
\<close>

definition np_square :: "npfloat \<Rightarrow> npfloat" where
  "np_square x = fmul x x"

definition sum_sq_X :: "(fvec \<Rightarrow> npfloat) \<Rightarrow> fmat \<Rightarrow> fvec" where
  "sum_sq_X np_sum X = map (\<lambda>j. np_sum (map np_square (col X j))) [0..<ncols X]"

definition near_const_0 :: "(fvec \<Rightarrow> npfloat) \<Rightarrow> fmat \<Rightarrow> bool list" where
  "near_const_0 np_sum X = map isclose_zero (sum_sq_X np_sum X)"

definition sum_sq_X_safe :: "(fvec \<Rightarrow> npfloat) \<Rightarrow> fmat \<Rightarrow> fvec" where
  "sum_sq_X_safe np_sum X =
     map2 (\<lambda>s c. if c then Fin 1 else s) (sum_sq_X np_sum X) (near_const_0 np_sum X)"

definition set_nan :: "bool list \<Rightarrow> fvec \<Rightarrow> fvec" where
  "set_nan msk xs = map2 (\<lambda>x c. if c then NaN else x) xs msk"

definition batch_marginal_ols ::
  "(fvec \<Rightarrow> npfloat) \<Rightarrow> (fvec \<Rightarrow> fvec \<Rightarrow> npfloat) \<Rightarrow> (fvec \<Rightarrow> npfloat) \<Rightarrow> (fvec \<Rightarrow> npfloat) \<Rightarrow>
   (npfloat \<Rightarrow> npfloat) \<Rightarrow> fvec \<Rightarrow> fmat \<Rightarrow> error + (fvec \<times> fvec \<times> fvec \<times> fvec)" where
  "batch_marginal_ols np_sum np_dot np_mean np_var chi2_sf Y X =
     (if length Y \<noteq> length X then Inl ValueError
      else
        (let betas = map2 fdiv (map (\<lambda>j. np_dot Y (col X j)) [0..<ncols X])
                       (sum_sq_X_safe np_sum X);
             mse = map (\<lambda>j. np_mean (map2 (\<lambda>y x. np_square (fsub y (fmul x (betas ! j))))
                                         Y (col X j)))
                     [0..<ncols X];
             se = map2 (\<lambda>m s. fsqrt (fdiv m s)) mse (sum_sq_X_safe np_sum X);
             z = map2 fdiv betas se;
             chi2 = map np_square z;
             pvals = map chi2_sf chi2;
             r2 = map (\<lambda>m. fsub (Fin 1) (fdiv m (np_var Y))) mse
         in Inr (set_nan (near_const_0 np_sum X) betas,
                 set_nan (near_const_0 np_sum X) se,
                 set_nan (near_const_0 np_sum X) pvals,
                 set_nan (near_const_0 np_sum X) r2)))"







text \<open>
  A p-value function for the examples: it has the values of \<open>chi2.sf\<close> at infinity, at
  zero and at NaN, and the examples use no other.
\<close>

definition chi2_sf_ends :: "npfloat \<Rightarrow> npfloat" where
  "chi2_sf_ends c = (if c = PInf then Fin 0 else if c = Fin 0 then Fin 1 else NaN)"

section \<open>Properties of get_indices_in_target_order\<close>

lemma build_mapper_dom: "dom (build_mapper es i m) = dom m \<union> set es"
  by (induction es arbitrary: i m) auto

lemma build_mapper_notin: "t \<notin> set es \<Longrightarrow> build_mapper es i m t = m t"
  by (induction es arbitrary: i m) auto

lemma build_mapper_last:
  "t \<in> set es \<Longrightarrow>
   \<exists>k<length es. build_mapper es i m t = Some (i + k) \<and> es ! k = t \<and>
       (\<forall>j. k < j \<and> j < length es \<longrightarrow> es ! j \<noteq> t)"
proof (induction es arbitrary: i m)
  case Nil
  then show ?case by simp
next
  case (Cons e es)
  show ?case
  proof (cases "t \<in> set es")
    case True
    from Cons.IH [OF True, of "Suc i" "m(e \<mapsto> i)"]
    obtain k where k: "k < length es"
      "build_mapper es (Suc i) (m(e \<mapsto> i)) t = Some (Suc i + k)" "es ! k = t"
      "\<forall>j. k < j \<and> j < length es \<longrightarrow> es ! j \<noteq> t"
      by blast
    have "\<forall>j. Suc k < j \<and> j < length (e # es) \<longrightarrow> (e # es) ! j \<noteq> t"
    proof (intro allI impI)
      fix j assume j: "Suc k < j \<and> j < length (e # es)"
      then obtain j' where j': "j = Suc j'" by (cases j) auto
      with j k(4) show "(e # es) ! j \<noteq> t" by simp
    qed
    with k show ?thesis
      by (intro exI [of _ "Suc k"]) simp
  next
    case False
    with Cons.prems have te: "t = e" by simp
    have "build_mapper (e # es) i m t = Some i"
      using False te by (simp add: build_mapper_notin)
    moreover have "\<forall>j. 0 < j \<and> j < length (e # es) \<longrightarrow> (e # es) ! j \<noteq> t"
    proof (intro allI impI)
      fix j assume j: "0 < j \<and> j < length (e # es)"
      then obtain j' where j': "j = Suc j'" by (cases j) auto
      with j False show "(e # es) ! j \<noteq> t" by (auto simp: in_set_conv_nth)
    qed
    ultimately show ?thesis using te
      by (intro exI [of _ 0]) simp
  qed
qed

lemma lookup_all_KeyError:
  "(lookup_all m ts = Inl KeyError) = (\<not> set ts \<subseteq> dom m)"
  by (induction ts) (auto split: option.splits sum.splits)

lemma lookup_all_error: "lookup_all m ts = Inl e \<Longrightarrow> e = KeyError"
  by (induction ts arbitrary: e) (auto split: option.splits sum.splits)

lemma lookup_all_Inr:
  "lookup_all m ts = Inr js \<Longrightarrow>
   length js = length ts \<and> (\<forall>k<length ts. m (ts ! k) = Some (js ! k))"
proof (induction ts arbitrary: js)
  case Nil
  then show ?case by simp
next
  case (Cons t ts)
  then obtain i js' where s: "m t = Some i" "lookup_all m ts = Inr js'" "js = i # js'"
    by (auto split: option.splits sum.splits)
  from Cons.IH [OF s(2)] have ih: "length js' = length ts"
    "\<forall>k<length ts. m (ts ! k) = Some (js' ! k)" by simp_all
  have "\<forall>k<length (t # ts). m ((t # ts) ! k) = Some (js ! k)"
  proof (intro allI impI)
    fix k assume "k < length (t # ts)"
    then show "m ((t # ts) ! k) = Some (js ! k)"
      using s ih by (cases k) auto
  qed
  with s ih show ?case by simp
qed

lemma get_indices_KeyError_iff:
  "(get_indices_in_target_order ref_list target_names = Inl KeyError)
     = (\<not> set target_names \<subseteq> set ref_list)"
  by (simp add: get_indices_in_target_order_def lookup_all_KeyError build_mapper_dom)

lemma get_indices_Inr:
  assumes "get_indices_in_target_order ref_list target_names = Inr idx"
  shows "length idx = length target_names"
    and "k < length target_names \<Longrightarrow>
         idx ! k < length ref_list \<and> ref_list ! (idx ! k) = target_names ! k \<and>
         (\<forall>j. idx ! k < j \<and> j < length ref_list \<longrightarrow> ref_list ! j \<noteq> target_names ! k)"
proof -
  let ?m = "build_mapper ref_list 0 Map.empty"
  from assms have la: "lookup_all ?m target_names = Inr idx"
    by (simp add: get_indices_in_target_order_def)
  from lookup_all_Inr [OF la] show len: "length idx = length target_names" by simp
  assume k: "k < length target_names"
  with lookup_all_Inr [OF la] have mk: "?m (target_names ! k) = Some (idx ! k)" by simp
  then have "target_names ! k \<in> dom ?m" by blast
  then have "target_names ! k \<in> set ref_list" by (simp add: build_mapper_dom)
  from build_mapper_last [OF this, of 0 Map.empty] mk
  show "idx ! k < length ref_list \<and> ref_list ! (idx ! k) = target_names ! k \<and>
         (\<forall>j. idx ! k < j \<and> j < length ref_list \<longrightarrow> ref_list ! j \<noteq> target_names ! k)"
    by auto
qed

section \<open>Properties of the feature selection\<close>

subsection \<open>The stable sort is a sort by p-value\<close>

lemma sort_le_total: "\<not> sort_le a b \<Longrightarrow> sort_le b a"
  by (cases a; cases b) auto

lemma sort_le_trans: "sort_le a b \<Longrightarrow> sort_le b c \<Longrightarrow> sort_le a c"
  by (cases a; cases b; cases c) auto

lemma mset_insert_by_pval: "mset (insert_by_pval r xs) = add_mset r (mset xs)"
  by (induction xs) auto

lemma set_insert_by_pval: "set (insert_by_pval r xs) = insert r (set xs)"
  by (induction xs) auto

lemma sorted_insert_by_pval:
  "sorted_wrt (\<lambda>a b. sort_le (pval a) (pval b)) xs \<Longrightarrow>
   sorted_wrt (\<lambda>a b. sort_le (pval a) (pval b)) (insert_by_pval r xs)"
  by (induction xs) (auto simp: set_insert_by_pval dest: sort_le_total intro: sort_le_trans)

lemma stable_sort_values_sorts: "sorts_by_pval stable_sort_values"
proof -
  have "mset (stable_sort_values df) = mset df" for df
    by (induction df) (auto simp: mset_insert_by_pval)
  moreover have "sorted_wrt (\<lambda>a b. sort_le (pval a) (pval b)) (stable_sort_values df)" for df
    by (induction df) (auto simp: sorted_insert_by_pval)
  ultimately show ?thesis by (simp add: sorts_by_pval_def)
qed

lemma mset_pair_cases:
  assumes "mset xs = {#a, b#}"
  shows "xs = [a, b] \<or> xs = [b, a]"
proof -
  from assms have "length xs = 2" by (metis size_mset size_add_mset size_empty numeral_2_eq_2)
  then obtain x y where xs: "xs = [x, y]"
    by (cases xs; cases "tl xs") (auto simp: numeral_2_eq_2)
  with assms show ?thesis by (auto simp: add_eq_conv_ex)
qed

lemma sorter_two:
  assumes "sorts_by_pval sv" "\<not> sort_le (pval a) (pval b)"
  shows "sv [a, b] = [b, a]"
proof -
  from assms(1) have m: "mset (sv [a, b]) = {#b, a#}"
    and s: "sorted_wrt (\<lambda>a b. sort_le (pval a) (pval b)) (sv [a, b])"
    by (simp_all add: sorts_by_pval_def)
  from mset_pair_cases [OF m] s assms(2) show ?thesis by auto
qed

subsection \<open>The ordering contract\<close>

text \<open>
  Claim C4. With no subset list, control list [C1], p-value cutoff 0.05 and at most two
  features, the table (A, 0.01), (B, 0.2), (C1, 0.9), (D, 0.001) gives the selection
  D, A, C1: the two smallest p-values under the cutoff among the rows that are not control
  features, then the control feature, whatever its p-value; the control feature does not
  use up the budget of two. This holds for every sort that \<open>sort_values\<close> may be, and
  whatever the other columns of the four rows hold.
\<close>

theorem ordering_contract:
  assumes "sorts_by_pval sort_values"
  shows "select_features_from_marginal_assoc_df sort_values
           [\<lparr>name = ''A'', beta = vb1, se = vs1, pval = Fin 0.01, r2 = vr1\<rparr>,
            \<lparr>name = ''B'', beta = vb2, se = vs2, pval = Fin 0.2, r2 = vr2\<rparr>,
            \<lparr>name = ''C1'', beta = vb3, se = vs3, pval = Fin 0.9, r2 = vr3\<rparr>,
            \<lparr>name = ''D'', beta = vb4, se = vs4, pval = Fin 0.001, r2 = vr4\<rparr>]
           None (Some [''C1'']) (Some (Fin 0.05)) (Some 2)
         = Inr [''D'', ''A'', ''C1'']"
proof -
  let ?a = "\<lparr>name = ''A'', beta = vb1, se = vs1, pval = Fin 0.01, r2 = vr1\<rparr>"
  let ?d = "\<lparr>name = ''D'', beta = vb4, se = vs4, pval = Fin 0.001, r2 = vr4\<rparr>"
  have "\<not> sort_le (pval ?a) (pval ?d)" by simp
  from sorter_two [OF assms this] show ?thesis
    by (simp add: select_features_from_marginal_assoc_df_def slice_upto_def)
qed

theorem ordering_contract_witness:
  "sorts_by_pval stable_sort_values \<and>
   select_features_from_marginal_assoc_df stable_sort_values
           [\<lparr>name = ''A'', beta = Fin 1, se = Fin 1, pval = Fin 0.01, r2 = Fin 0\<rparr>,
            \<lparr>name = ''B'', beta = Fin 1, se = Fin 1, pval = Fin 0.2, r2 = Fin 0\<rparr>,
            \<lparr>name = ''C1'', beta = Fin 1, se = Fin 1, pval = Fin 0.9, r2 = Fin 0\<rparr>,
            \<lparr>name = ''D'', beta = Fin 1, se = Fin 1, pval = Fin 0.001, r2 = Fin 0\<rparr>]
           None (Some [''C1'']) (Some (Fin 0.05)) (Some 2)
         = Inr [''D'', ''A'', ''C1'']"
  using ordering_contract [OF stable_sort_values_sorts] stable_sort_values_sorts by simp

subsection \<open>Idempotence of the selection\<close>

lemma is_control_simps:
  "is_control None = (\<lambda>r. False)"
  "is_control (Some cs) = (\<lambda>r. name r \<in> set cs)"
  by (simp_all add: fun_eq_iff is_control_def)

lemma select_after_subset:
  "select_features_from_marginal_assoc_df sv df None ctl pc mx =
     Inr (map name (limit_rows sv mx (filter (\<lambda>r. \<not> is_control ctl r \<and> passes_cutoff pc r) df))
          @ map name (filter (is_control ctl) df))"
  by (cases ctl; cases pc; cases mx)
     (simp_all add: select_features_from_marginal_assoc_df_def is_control_simps
        passes_cutoff_def limit_rows_def)

lemma select_with_subset:
  "select_features_from_marginal_assoc_df sv df (Some ss) ctl pc mx =
     (case loc_rows df ss of
        Inl e \<Rightarrow> Inl e
      | Inr df1 \<Rightarrow> select_features_from_marginal_assoc_df sv df1 None ctl pc mx)"
  by (simp add: select_features_from_marginal_assoc_df_def split: sum.splits)

lemma sorts_by_pval_mset: "sorts_by_pval sv \<Longrightarrow> mset (sv df) = mset df"
  by (simp add: sorts_by_pval_def)

lemma sorts_by_pval_set: "sorts_by_pval sv \<Longrightarrow> set (sv df) = set df"
  by (rule mset_eq_setD [OF sorts_by_pval_mset])

lemma set_slice_upto: "set (slice_upto n xs) \<subseteq> set xs"
  by (auto simp: slice_upto_def dest: in_set_takeD)

lemma set_limit_rows: "sorts_by_pval sv \<Longrightarrow> set (limit_rows sv mx df) \<subseteq> set df"
  using set_slice_upto [of _ "sv df"]
  by (auto simp: limit_rows_def sorts_by_pval_set split: option.splits)

lemma loc_rows_set: "loc_rows df ss = Inr df1 \<Longrightarrow> set df1 \<subseteq> set df"
  by (auto simp: loc_rows_def split: if_splits)

lemma loc_rows_restrict_same:
  assumes "loc_rows df ss = Inr df1" "set ss \<subseteq> set S"
  shows "loc_rows (restrict_df df S) ss = Inr df1"
proof -
  from assms(1) have sub: "set ss \<subseteq> name ` set df"
    and df1: "df1 = concat (map (\<lambda>n. filter (\<lambda>r. name r = n) df) ss)"
    by (auto simp: loc_rows_def split: if_splits)
  have ok: "\<not> (\<exists>n \<in> set ss. n \<notin> set (map name (restrict_df df S)))"
    using sub assms(2) by (auto simp: restrict_df_def)
  have eq: "map (\<lambda>n. filter (\<lambda>r. name r = n) (restrict_df df S)) ss
      = map (\<lambda>n. filter (\<lambda>r. name r = n) df) ss"
  proof (rule map_cong [OF refl])
    fix n assume "n \<in> set ss"
    with assms(2) have "n \<in> set S" by blast
    then show "filter (\<lambda>r. name r = n) (restrict_df df S) = filter (\<lambda>r. name r = n) df"
      by (auto simp: restrict_df_def intro: filter_cong)
  qed
  show ?thesis
    unfolding loc_rows_def eq df1 using ok by simp
qed

lemma loc_rows_restrict_KeyError:
  assumes "\<not> set ss \<subseteq> set S"
  shows "loc_rows (restrict_df df S) ss = Inl KeyError"
  using assms by (auto simp: loc_rows_def restrict_df_def)

lemma limit_rows_small:
  assumes "sorts_by_pval sv" "\<forall>n. mx = Some n \<longrightarrow> 0 \<le> n \<and> length df \<le> nat n"
  shows "set (limit_rows sv mx df) = set df"
proof (cases mx)
  case None
  then show ?thesis by (simp add: limit_rows_def)
next
  case (Some n)
  with assms(2) have n: "0 \<le> n" "length df \<le> nat n" by auto
  have "length (sv df) = length df"
    by (rule mset_eq_length [OF sorts_by_pval_mset [OF assms(1)]])
  with n have "take (nat n) (sv df) = sv df" by simp
  with Some n show ?thesis
    by (simp add: limit_rows_def slice_upto_def sorts_by_pval_set [OF assms(1)])
qed

lemma limit_rows_length:
  assumes "sorts_by_pval sv" "mx = Some n" "0 \<le> n"
  shows "length (limit_rows sv mx df) \<le> nat n"
  using assms by (simp add: limit_rows_def slice_upto_def)

lemma limit_rows_distinct:
  assumes "sorts_by_pval sv" "distinct df"
  shows "distinct (limit_rows sv mx df)"
proof -
  have "distinct (sv df)"
    using mset_eq_imp_distinct_iff [OF sorts_by_pval_mset [OF assms(1), of df]] assms(2) by simp
  then show ?thesis using assms(2)
    by (auto simp: limit_rows_def slice_upto_def split: option.splits)
qed

lemma select_None_idem:
  assumes sv: "sorts_by_pval sv"
    and dist: "distinct (map name df)"
    and nonneg: "\<forall>n. mx = Some n \<longrightarrow> 0 \<le> n"
    and first: "select_features_from_marginal_assoc_df sv df None ctl pc mx = Inr S"
  shows "\<exists>S'. select_features_from_marginal_assoc_df sv (restrict_df df S) None ctl pc mx = Inr S'
            \<and> set S' = set S"
proof -
  let ?keep = "\<lambda>r. \<not> is_control ctl r \<and> passes_cutoff pc r"
  let ?P = "filter ?keep df"
  let ?Q = "limit_rows sv mx ?P"
  let ?C = "filter (is_control ctl) df"
  let ?df' = "restrict_df df S"
  let ?P' = "filter ?keep ?df'"
  from first have S: "S = map name ?Q @ map name ?C"
    by (simp add: select_after_subset)
  have ddf: "distinct df" using dist by (simp add: distinct_map)
  have QP: "set ?Q \<subseteq> set ?P" by (rule set_limit_rows [OF sv])
  have inj: "\<And>a b. a \<in> set df \<Longrightarrow> b \<in> set df \<Longrightarrow> name a = name b \<Longrightarrow> a = b"
    using dist by (meson distinct_map inj_onD)
  have C': "filter (is_control ctl) ?df' = ?C"
    unfolding restrict_df_def filter_filter
    by (rule filter_cong [OF refl]) (auto simp: S)
  have ctl_name: "\<And>a b. name a = name b \<Longrightarrow> is_control ctl a = is_control ctl b"
    by (simp add: is_control_def split: option.splits)
  have P': "?P' = filter (\<lambda>r. r \<in> set ?Q) ?P"
  proof -
    have "?P' = filter (\<lambda>r. ?keep r \<and> name r \<in> set S) df"
      unfolding restrict_df_def filter_filter by (rule filter_cong) auto
    also have "\<dots> = filter (\<lambda>r. ?keep r \<and> r \<in> set ?Q) df"
    proof (rule filter_cong [OF refl])
      fix r assume r: "r \<in> set df"
      show "(?keep r \<and> name r \<in> set S) = (?keep r \<and> r \<in> set ?Q)"
      proof (cases "?keep r")
        case False
        then show ?thesis by blast
      next
        case True
        have "name r \<in> set S \<longleftrightarrow> r \<in> set ?Q"
        proof
          assume "name r \<in> set S"
          then consider q where "q \<in> set ?Q" "name q = name r"
            | c where "c \<in> set ?C" "name c = name r"
            unfolding S by auto
          then show "r \<in> set ?Q"
          proof cases
            case 1
            with QP have "q \<in> set df" by auto
            from inj [OF this r 1(2)] 1(1) show ?thesis by simp
          next
            case 2
            then have "is_control ctl c" by simp
            with ctl_name [OF 2(2)] True show ?thesis by simp
          qed
        next
          assume "r \<in> set ?Q"
          then show "name r \<in> set S" unfolding S by auto
        qed
        with True show ?thesis by simp
      qed
    qed
    also have "\<dots> = filter (\<lambda>r. r \<in> set ?Q) ?P"
      unfolding filter_filter by (rule filter_cong) auto
    finally show ?thesis .
  qed
  have setP': "set ?P' = set ?Q" using QP by (auto simp: P')
  have dP: "distinct ?P" using ddf by simp
  have dQ: "distinct ?Q" by (rule limit_rows_distinct [OF sv dP])
  have dP': "distinct ?P'" unfolding P' by (rule distinct_filter [OF dP])
  have lenP': "length ?P' = length ?Q"
  proof -
    have "length ?P' = card (set ?P')" using dP' by (simp only: distinct_card)
    also have "\<dots> = card (set ?Q)" by (simp only: setP')
    also have "\<dots> = length ?Q" using dQ by (simp only: distinct_card)
    finally show ?thesis .
  qed
  have "\<forall>n. mx = Some n \<longrightarrow> 0 \<le> n \<and> length ?P' \<le> nat n"
    using nonneg limit_rows_length [OF sv] lenP' by auto
  from limit_rows_small [OF sv this] setP'
  have Q': "set (limit_rows sv mx ?P') = set ?Q" by simp
  have "select_features_from_marginal_assoc_df sv ?df' None ctl pc mx
          = Inr (map name (limit_rows sv mx ?P') @ map name ?C)"
    by (simp add: select_after_subset C')
  moreover have "set (map name (limit_rows sv mx ?P') @ map name ?C) = set S"
  proof -
    have "set S = name ` set ?Q \<union> name ` set ?C" by (subst S) simp
    moreover have "set (map name (limit_rows sv mx ?P') @ map name ?C)
        = name ` set (limit_rows sv mx ?P') \<union> name ` set ?C" by simp
    ultimately show ?thesis using Q' by presburger
  qed
  ultimately show ?thesis by blast
qed

text \<open>
  Claim C5, as amended. Let the selection of a table whose feature names are distinct, with
  a max count that is not negative when given, return the names S, and apply the selection
  with the same criteria to the rows of the table whose name is in S. If a subset list is
  given and names a feature that is not in S, the second selection raises KeyError (the
  strict \<open>.loc\<close> lookup of the subset list); in every other case it returns a list with
  the same set of names as S.
\<close>

theorem selection_idempotent_unless_lookup_fails:
  assumes "sorts_by_pval sort_values"
    and "distinct (map name df)"
    and "\<forall>n. max_num = Some n \<longrightarrow> 0 \<le> n"
    and "select_features_from_marginal_assoc_df sort_values df subset_features control_features
           p_cutoff max_num = Inr S"
  shows "(if \<exists>ss. subset_features = Some ss \<and> \<not> set ss \<subseteq> set S
          then select_features_from_marginal_assoc_df sort_values (restrict_df df S)
                 subset_features control_features p_cutoff max_num = Inl KeyError
          else \<exists>S'. select_features_from_marginal_assoc_df sort_values (restrict_df df S)
                 subset_features control_features p_cutoff max_num = Inr S' \<and> set S' = set S)"
proof (cases subset_features)
  case None
  with select_None_idem [OF assms(1-3)] assms(4) show ?thesis by simp
next
  case (Some ss)
  with assms(4) obtain df1 where df1: "loc_rows df ss = Inr df1"
    and sel: "select_features_from_marginal_assoc_df sort_values df1 None control_features
                p_cutoff max_num = Inr S"
    by (auto simp: select_with_subset split: sum.splits)
  show ?thesis
  proof (cases "set ss \<subseteq> set S")
    case True
    from loc_rows_restrict_same [OF df1 True] sel Some True show ?thesis
      by (simp add: select_with_subset)
  next
    case False
    from loc_rows_restrict_KeyError [OF False] Some False show ?thesis
      by (simp add: select_with_subset)
  qed
qed

text \<open>
  The claim as stated fails: with the subset list [A, B] and the cutoff 0.05 the table
  (A, 0.01), (B, 0.2) gives [A]; on the table restricted to A the lookup of B raises.
\<close>

theorem selection_idempotent_counterexample:
  "select_features_from_marginal_assoc_df stable_sort_values
     [\<lparr>name = ''A'', beta = Fin 1, se = Fin 1, pval = Fin 0.01, r2 = Fin 0\<rparr>,
      \<lparr>name = ''B'', beta = Fin 1, se = Fin 1, pval = Fin 0.2, r2 = Fin 0\<rparr>]
     (Some [''A'', ''B'']) None (Some (Fin 0.05)) None = Inr [''A'']
   \<and> select_features_from_marginal_assoc_df stable_sort_values
     (restrict_df
        [\<lparr>name = ''A'', beta = Fin 1, se = Fin 1, pval = Fin 0.01, r2 = Fin 0\<rparr>,
         \<lparr>name = ''B'', beta = Fin 1, se = Fin 1, pval = Fin 0.2, r2 = Fin 0\<rparr>]
        [''A''])
     (Some [''A'', ''B'']) None (Some (Fin 0.05)) None = Inl KeyError"
  by (simp add: select_features_from_marginal_assoc_df_def loc_rows_def restrict_df_def)

theorem selection_idempotent_unless_lookup_fails_witness:
  "sorts_by_pval stable_sort_values
   \<and> distinct (map name
        [\<lparr>name = ''A'', beta = Fin 1, se = Fin 1, pval = Fin 0.01, r2 = Fin 0\<rparr>,
         \<lparr>name = ''B'', beta = Fin 1, se = Fin 1, pval = Fin 0.2, r2 = Fin 0\<rparr>,
         \<lparr>name = ''C1'', beta = Fin 1, se = Fin 1, pval = Fin 0.9, r2 = Fin 0\<rparr>,
         \<lparr>name = ''D'', beta = Fin 1, se = Fin 1, pval = Fin 0.001, r2 = Fin 0\<rparr>])
   \<and> select_features_from_marginal_assoc_df stable_sort_values
        [\<lparr>name = ''A'', beta = Fin 1, se = Fin 1, pval = Fin 0.01, r2 = Fin 0\<rparr>,
         \<lparr>name = ''B'', beta = Fin 1, se = Fin 1, pval = Fin 0.2, r2 = Fin 0\<rparr>,
         \<lparr>name = ''C1'', beta = Fin 1, se = Fin 1, pval = Fin 0.9, r2 = Fin 0\<rparr>,
         \<lparr>name = ''D'', beta = Fin 1, se = Fin 1, pval = Fin 0.001, r2 = Fin 0\<rparr>]
        None (Some [''C1'']) (Some (Fin 0.05)) (Some 2) = Inr [''D'', ''A'', ''C1'']
   \<and> (\<exists>S'. select_features_from_marginal_assoc_df stable_sort_values
        (restrict_df
          [\<lparr>name = ''A'', beta = Fin 1, se = Fin 1, pval = Fin 0.01, r2 = Fin 0\<rparr>,
           \<lparr>name = ''B'', beta = Fin 1, se = Fin 1, pval = Fin 0.2, r2 = Fin 0\<rparr>,
           \<lparr>name = ''C1'', beta = Fin 1, se = Fin 1, pval = Fin 0.9, r2 = Fin 0\<rparr>,
           \<lparr>name = ''D'', beta = Fin 1, se = Fin 1, pval = Fin 0.001, r2 = Fin 0\<rparr>]
          [''D'', ''A'', ''C1''])
        None (Some [''C1'']) (Some (Fin 0.05)) (Some 2) = Inr S'
        \<and> set S' = set [''D'', ''A'', ''C1''])"
proof -
  let ?df = "[\<lparr>name = ''A'', beta = Fin 1, se = Fin 1, pval = Fin 0.01, r2 = Fin 0\<rparr>,
         \<lparr>name = ''B'', beta = Fin 1, se = Fin 1, pval = Fin 0.2, r2 = Fin 0\<rparr>,
         \<lparr>name = ''C1'', beta = Fin 1, se = Fin 1, pval = Fin 0.9, r2 = Fin 0\<rparr>,
         \<lparr>name = ''D'', beta = Fin 1, se = Fin 1, pval = Fin 0.001, r2 = Fin 0\<rparr>]"
  have h1: "sorts_by_pval stable_sort_values" by (rule stable_sort_values_sorts)
  have h2: "distinct (map name ?df)" by simp
  have h3: "\<forall>n. Some (2::int) = Some n \<longrightarrow> 0 \<le> n" by simp
  have h4: "select_features_from_marginal_assoc_df stable_sort_values ?df
        None (Some [''C1'']) (Some (Fin 0.05)) (Some 2) = Inr [''D'', ''A'', ''C1'']"
    by (simp add: select_features_from_marginal_assoc_df_def slice_upto_def)
  from selection_idempotent_unless_lookup_fails [OF h1 h2 h3 h4] h1 h2 h4
  show ?thesis by simp
qed

subsection \<open>Rows with an undefined p-value\<close>

lemma zip_map_self: "set (zip xs (map f xs)) = (\<lambda>x. (x, f x)) ` set xs"
  by (induction xs) auto

text \<open>
  Claim C3. Whatever the subset list, the control list, the cutoff and the max count are
  (each given or not), when the selection does not raise: the column \<open>selected\<close> that
  \<open>main\<close> computes is False on every row whose p-value is NaN; every name of the final
  selected set is the name of a row whose p-value is not NaN; and when the feature names of
  the table are distinct, the name of a row with a NaN p-value is not in the final selected
  set. A constant feature column has a NaN p-value, so it is never selected, with or
  without a cutoff.
\<close>

theorem undefined_pvalue_never_selected:
  assumes "main_selected_column sort_values df subset_features control_features p_cutoff
             max_num = Inr selected"
  shows "length selected = length df
       \<and> (\<forall>i<length df. isnull (pval (df ! i)) \<longrightarrow> \<not> selected ! i)
       \<and> (\<exists>fs. main_selected_features sort_values df subset_features control_features
                  p_cutoff max_num = Inr fs
              \<and> (\<forall>n\<in>set fs. \<exists>r\<in>set df. name r = n \<and> \<not> isnull (pval r))
              \<and> (distinct (map name df) \<longrightarrow>
                   (\<forall>r\<in>set df. isnull (pval r) \<longrightarrow> name r \<notin> set fs)))"
proof -
  from assms obtain sel where
    sel: "selected = map (\<lambda>r. name r \<in> set sel \<and> \<not> isnull (pval r)) df"
    by (auto simp: main_selected_column_def split: sum.splits)
  let ?fs = "map (\<lambda>p. name (fst p)) (filter snd (zip df selected))"
  have fs: "main_selected_features sort_values df subset_features control_features
                  p_cutoff max_num = Inr ?fs"
    using assms by (simp add: main_selected_features_def)
  have mem: "\<exists>r\<in>set df. name r = n \<and> \<not> isnull (pval r)" if "n \<in> set ?fs" for n
    using that unfolding sel by (auto simp: zip_map_self)
  have "\<forall>r\<in>set df. isnull (pval r) \<longrightarrow> name r \<notin> set ?fs" if d: "distinct (map name df)"
  proof (intro ballI impI notI)
    fix r assume r: "r \<in> set df" "isnull (pval r)" "name r \<in> set ?fs"
    from mem [OF r(3)] obtain r' where r': "r' \<in> set df" "name r' = name r" "\<not> isnull (pval r')"
      by blast
    from d r(1) r'(1,2) have "r' = r" by (meson distinct_map inj_onD)
    with r(2) r'(3) show False by simp
  qed
  moreover have "length selected = length df" by (simp add: sel)
  moreover have "\<forall>i<length df. isnull (pval (df ! i)) \<longrightarrow> \<not> selected ! i"
    by (simp add: sel)
  ultimately show ?thesis using fs mem by blast
qed

theorem undefined_pvalue_never_selected_witness:
  "main_selected_column stable_sort_values
     [\<lparr>name = ''A'', beta = NaN, se = NaN, pval = NaN, r2 = NaN\<rparr>,
      \<lparr>name = ''B'', beta = Fin 1, se = Fin 1, pval = Fin 0.01, r2 = Fin 0\<rparr>,
      \<lparr>name = ''C'', beta = NaN, se = NaN, pval = NaN, r2 = NaN\<rparr>]
     None (Some [''A'']) None (Some 5) = Inr [False, True, False]
   \<and> main_selected_features stable_sort_values
     [\<lparr>name = ''A'', beta = NaN, se = NaN, pval = NaN, r2 = NaN\<rparr>,
      \<lparr>name = ''B'', beta = Fin 1, se = Fin 1, pval = Fin 0.01, r2 = Fin 0\<rparr>,
      \<lparr>name = ''C'', beta = NaN, se = NaN, pval = NaN, r2 = NaN\<rparr>]
     None (Some [''A'']) None (Some 5) = Inr [''B'']
   \<and> select_features_from_marginal_assoc_df stable_sort_values
     [\<lparr>name = ''A'', beta = NaN, se = NaN, pval = NaN, r2 = NaN\<rparr>,
      \<lparr>name = ''B'', beta = Fin 1, se = Fin 1, pval = Fin 0.01, r2 = Fin 0\<rparr>,
      \<lparr>name = ''C'', beta = NaN, se = NaN, pval = NaN, r2 = NaN\<rparr>]
     None (Some [''A'']) None (Some 5) = Inr [''B'', ''C'', ''A'']"
proof -
  let ?df = "[\<lparr>name = ''A'', beta = NaN, se = NaN, pval = NaN, r2 = NaN\<rparr>,
      \<lparr>name = ''B'', beta = Fin 1, se = Fin 1, pval = Fin 0.01, r2 = Fin 0\<rparr>,
      \<lparr>name = ''C'', beta = NaN, se = NaN, pval = NaN, r2 = NaN\<rparr>]"
  have s: "select_features_from_marginal_assoc_df stable_sort_values ?df
     None (Some [''A'']) None (Some 5) = Inr [''B'', ''C'', ''A'']"
    by (simp add: select_features_from_marginal_assoc_df_def slice_upto_def)
  have h: "main_selected_column stable_sort_values ?df
     None (Some [''A'']) None (Some 5) = Inr [False, True, False]"
    by (simp add: main_selected_column_def isnull_def
          select_features_from_marginal_assoc_df_def slice_upto_def)
  from undefined_pvalue_never_selected [OF h] h s show ?thesis
    by (simp add: main_selected_features_def)
qed

section \<open>Properties of the natural sort order\<close>

lemma not_isdigit_takeWhile: "\<not> isdigit (takeWhile (\<lambda>c. \<not> is_digit c) s)"
proof (cases "takeWhile (\<lambda>c. \<not> is_digit c) s")
  case Nil
  then show ?thesis by (simp add: isdigit_def)
next
  case (Cons x xs)
  then have "x \<in> set (takeWhile (\<lambda>c. \<not> is_digit c) s)" by simp
  then have "\<not> is_digit x" by (rule set_takeWhileD [THEN conjunct2])
  with Cons show ?thesis by (auto simp: isdigit_def)
qed

lemma isdigit_takeWhile_hd:
  assumes "rest \<noteq> []" "is_digit (hd rest)"
  shows "isdigit (takeWhile is_digit rest)"
proof -
  from assms obtain x xs where rest: "rest = x # xs" "is_digit x" by (cases rest) auto
  have "\<forall>c \<in> set (takeWhile is_digit rest). is_digit c"
    by (auto dest: set_takeWhileD)
  moreover have "takeWhile is_digit rest \<noteq> []" unfolding rest(1) using rest(2) by simp
  ultimately show ?thesis unfolding isdigit_def by blast
qed

lemma isdigit_takeWhile:
  assumes "dropWhile (\<lambda>c. \<not> is_digit c) s \<noteq> []"
  shows "isdigit (takeWhile is_digit (dropWhile (\<lambda>c. \<not> is_digit c) s))"
proof -
  from hd_dropWhile [OF assms] have "is_digit (hd (dropWhile (\<lambda>c. \<not> is_digit c) s))" by blast
  with assms show ?thesis by (rule isdigit_takeWhile_hd)
qed

lemma natural_key_unfold:
  "natural_key s =
     (if dropWhile (\<lambda>c. \<not> is_digit c) s = [] then [KStr (takeWhile (\<lambda>c. \<not> is_digit c) s)]
      else KStr (takeWhile (\<lambda>c. \<not> is_digit c) s)
           # KInt (int_of_digits (takeWhile is_digit (dropWhile (\<lambda>c. \<not> is_digit c) s)))
           # natural_key (dropWhile is_digit (dropWhile (\<lambda>c. \<not> is_digit c) s)))"
  unfolding natural_key_def
  by (subst re_split_digits.simps) (simp add: not_isdigit_takeWhile isdigit_takeWhile)

lemma natural_key_shape:
  "i < length (natural_key s) \<Longrightarrow>
   (even i \<longrightarrow> (\<exists>t. natural_key s ! i = KStr t)) \<and> (odd i \<longrightarrow> (\<exists>n. natural_key s ! i = KInt n))"
proof (induction s arbitrary: i rule: re_split_digits.induct)
  case (1 s)
  show ?case
  proof (cases "dropWhile (\<lambda>c. \<not> is_digit c) s = []")
    case True
    with "1.prems" show ?thesis by (simp add: natural_key_unfold [of s])
  next
    case False
    let ?s' = "dropWhile is_digit (dropWhile (\<lambda>c. \<not> is_digit c) s)"
    have nk: "natural_key s = KStr (takeWhile (\<lambda>c. \<not> is_digit c) s)
           # KInt (int_of_digits (takeWhile is_digit (dropWhile (\<lambda>c. \<not> is_digit c) s)))
           # natural_key ?s'"
      using False by (subst natural_key_unfold) simp
    consider "i = 0" | "i = 1" | j where "i = Suc (Suc j)"
      by (cases i; cases "i - 1") auto
    then show ?thesis
    proof cases
      case 1
      then show ?thesis by (simp add: nk)
    next
      case 2
      then show ?thesis by (simp add: nk)
    next
      case 3
      with "1.prems" have "j < length (natural_key ?s')" by (simp add: nk)
      from "1.IH" [OF False this] 3 show ?thesis by (simp add: nk)
    qed
  qed
qed

section \<open>Properties of load_feature_matrix\<close>











section \<open>Properties of the block operations\<close>

subsection \<open>Entries outside the blocks are not read\<close>

lemma block_indices_iff:
  "i \<in> set (block_indices block_labels l) \<longleftrightarrow> i < length block_labels \<and> block_labels ! i = l"
  by (auto simp: block_indices_def)

lemma get_block_agree:
  assumes "same_shape A A'" "agree_within_blocks block_labels A A'"
  shows "get_block A (block_indices block_labels l) = get_block A' (block_indices block_labels l)"
proof -
  let ?ind = "block_indices block_labels l"
  have "map (\<lambda>i. map (\<lambda>j. A ! i ! j) ?ind) ?ind = map (\<lambda>i. map (\<lambda>j. A' ! i ! j) ?ind) ?ind"
  proof (rule map_cong [OF refl], rule map_cong [OF refl])
    fix i j assume "i \<in> set ?ind" "j \<in> set ?ind"
    then have "i < length block_labels" "j < length block_labels"
      "block_labels ! i = block_labels ! j"
      by (simp_all add: block_indices_iff)
    with assms(2) show "A ! i ! j = A' ! i ! j"
      by (simp add: agree_within_blocks_def)
  qed
  with assms(1) show ?thesis
    by (simp add: get_block_def same_shape_def)
qed

lemma block_Linv_loop_cong:
  assumes "\<And>l. get_block A (block_indices block_labels l) = get_block A' (block_indices block_labels l)"
  shows "block_Linv_loop cholesky linalg_inv A block_labels ls Linv
       = block_Linv_loop cholesky linalg_inv A' block_labels ls Linv"
  by (induction ls arbitrary: Linv) (simp_all add: assms split: sum.splits option.splits)

lemma block_AB_loop_cong:
  assumes "\<And>l. get_block A (block_indices block_labels l) = get_block A' (block_indices block_labels l)"
  shows "block_AB_loop A block_labels B ls new_B = block_AB_loop A' block_labels B ls new_B"
  by (induction ls arbitrary: new_B) (simp_all add: assms split: sum.splits)

lemma block_Av_loop_cong:
  assumes "\<And>l. get_block A (block_indices block_labels l) = get_block A' (block_indices block_labels l)"
  shows "block_Av_loop A block_labels B ls new_B = block_Av_loop A' block_labels B ls new_B"
  by (induction ls arbitrary: new_B) (simp_all add: assms split: sum.splits)

lemma block_BA_loop_cong:
  assumes "\<And>l. get_block A (block_indices block_labels l) = get_block A' (block_indices block_labels l)"
  shows "block_BA_loop A block_labels B ls new_B = block_BA_loop A' block_labels B ls new_B"
  by (induction ls arbitrary: new_B) (simp_all add: assms split: sum.splits)

text \<open>
  Claim C9. The block operations read their matrix argument only within the blocks: when
  A and A' have the same shape and the same entry wherever the row and the column carry the
  same label, then \<open>block_Linv\<close>, \<open>block_AB\<close> (on a matrix and on a vector) and
  \<open>block_BA\<close> return the same on A as on A', for every B and whatever the library
  functions are; this includes the case where they raise.
\<close>

theorem block_operations_ignore_off_block:
  assumes "same_shape A A'" "agree_within_blocks block_labels A A'"
  shows "block_Linv cholesky linalg_inv A block_labels
           = block_Linv cholesky linalg_inv A' block_labels
       \<and> block_AB A block_labels B = block_AB A' block_labels B
       \<and> block_Av A block_labels v = block_Av A' block_labels v
       \<and> block_BA A block_labels B = block_BA A' block_labels B"
proof -
  note g = get_block_agree [OF assms]
  from assms(1) have z: "zeros (length A) (ncols A) = zeros (length A') (ncols A')"
    by (simp add: same_shape_def)
  show ?thesis
    unfolding block_Linv_def block_AB_def block_Av_def block_BA_def z
    using block_Linv_loop_cong [of A block_labels A', OF g]
      block_AB_loop_cong [of A block_labels A', OF g]
      block_Av_loop_cong [of A block_labels A', OF g]
      block_BA_loop_cong [of A block_labels A', OF g]
    by simp
qed

theorem block_operations_ignore_off_block_witness:
  "same_shape [[1, 2], [3, 4]] [[1, 7], [8, 4]]
   \<and> agree_within_blocks [''1'', ''2''] [[1, 2], [3, 4]] [[1, 7], [8, 4]]
   \<and> block_AB [[1, 2], [3, 4]] [''1'', ''2''] [[1, 1], [1, 2]] = Inr [[1, 1], [4, 8]]
   \<and> block_AB [[1, 7], [8, 4]] [''1'', ''2''] [[1, 1], [1, 2]] = Inr [[1, 1], [4, 8]]"
proof -
  have h1: "same_shape [[1, 2], [3, 4]] [[1, 7], [8, 4::real]]"
    by (simp add: same_shape_def ncols_def)
  have h2: "agree_within_blocks [''1'', ''2''] [[1, 2], [3, 4]] [[1, 7], [8, 4::real]]"
    by (simp add: agree_within_blocks_def less_Suc_eq)
  have v: "block_AB [[1, 2], [3, 4]] [''1'', ''2''] [[1, 1], [1, 2]] = Inr [[1, 1], [4, 8]]"
    by (simp add: block_AB_def block_indices_def get_block_def ncols_def zeros_def
          set_rows_def get_rows_def place_def mat_mul_def dot_def col_def upt_rec)
  from block_operations_ignore_off_block [OF h1 h2, of "\<lambda>S. None" "\<lambda>S. None" "[[1, 1], [1, 2]]" "[1, 1]"]
  have "block_AB [[1, 2], [3, 4]] [''1'', ''2''] [[1, 1], [1, 2]]
      = block_AB [[1, 7], [8, 4]] [''1'', ''2''] [[1, 1], [1, 2]]" by simp
  with v h1 h2 show ?thesis by simp
qed

subsection \<open>Matrix algebra on lists\<close>

lemma dot_sum: "length u = length v \<Longrightarrow> dot u v = (\<Sum>k<length u. u ! k * v ! k)"
proof -
  assume l: "length u = length v"
  have "dot u v = (\<Sum>k = 0..<length (map2 (*) u v). map2 (*) u v ! k)"
    unfolding dot_def by (rule sum_list_sum_nth)
  also have "\<dots> = (\<Sum>k<length u. u ! k * v ! k)"
    using l by (intro sum.cong) (auto simp: atLeast0LessThan)
  finally show ?thesis .
qed

lemma is_matD:
  "is_mat n m A \<Longrightarrow> length A = n"
  "is_mat n m A \<Longrightarrow> i < n \<Longrightarrow> length (A ! i) = m"
  by (auto simp: is_mat_def)

lemma ncols_is_mat: "is_mat n m A \<Longrightarrow> 0 < n \<Longrightarrow> ncols A = m"
  by (cases A) (auto simp: is_mat_def ncols_def)

lemma mat_eqI:
  assumes "is_mat n m A" "is_mat n m B" "\<And>i j. i < n \<Longrightarrow> j < m \<Longrightarrow> A ! i ! j = B ! i ! j"
  shows "A = B"
proof (rule nth_equalityI)
  show "length A = length B" using assms(1,2) by (simp add: is_matD)
next
  fix i assume "i < length A"
  then have i: "i < n" using assms(1) by (simp add: is_matD)
  show "A ! i = B ! i"
    by (rule nth_equalityI) (use i assms in \<open>simp_all add: is_matD\<close>)
qed

lemma col_nth: "i < length A \<Longrightarrow> col A j ! i = A ! i ! j"
  by (simp add: col_def)

lemma is_mat_mat_mul:
  assumes "is_mat n m A" "is_mat m p B" "0 < m"
  shows "is_mat n p (mat_mul A B)"
  using assms by (auto simp: is_mat_def mat_mul_def ncols_is_mat [OF assms(2,3)])

lemma mat_mul_nth:
  assumes "is_mat n m A" "is_mat m p B" "0 < m" "i < n" "j < p"
  shows "mat_mul A B ! i ! j = (\<Sum>k<m. A ! i ! k * B ! k ! j)"
proof -
  have "mat_mul A B ! i ! j = dot (A ! i) (col B j)"
    using assms by (simp add: mat_mul_def ncols_is_mat [OF assms(2,3)] is_matD)
  also have "\<dots> = (\<Sum>k<length (A ! i). A ! i ! k * col B j ! k)"
    using assms by (intro dot_sum) (simp add: is_matD col_def)
  also have "\<dots> = (\<Sum>k<m. A ! i ! k * B ! k ! j)"
    using assms by (intro sum.cong) (simp_all add: is_matD col_nth)
  finally show ?thesis .
qed

lemma is_mat_transpose:
  assumes "is_mat n m A" "0 < n"
  shows "is_mat m n (transpose_mat A)"
  using assms by (auto simp: is_mat_def transpose_mat_def ncols_is_mat [OF assms] col_def)

lemma transpose_nth:
  assumes "is_mat n m A" "0 < n" "i < m" "j < n"
  shows "transpose_mat A ! i ! j = A ! j ! i"
  using assms by (simp add: transpose_mat_def ncols_is_mat [OF assms(1,2)] col_def is_matD)

lemma is_mat_eye: "is_mat n n (eye n)"
  by (simp add: is_mat_def eye_def)

lemma eye_nth: "i < n \<Longrightarrow> j < n \<Longrightarrow> eye n ! i ! j = (if i = j then 1 else 0)"
  by (simp add: eye_def)

lemma mat_mul_assoc:
  assumes "is_mat n m A" "is_mat m p B" "is_mat p q C" "0 < m" "0 < p"
  shows "mat_mul (mat_mul A B) C = mat_mul A (mat_mul B C)"
proof (rule mat_eqI)
  show "is_mat n q (mat_mul (mat_mul A B) C)"
    by (rule is_mat_mat_mul [OF is_mat_mat_mul [OF assms(1,2,4)] assms(3,5)])
  show "is_mat n q (mat_mul A (mat_mul B C))"
    by (rule is_mat_mat_mul [OF assms(1) is_mat_mat_mul [OF assms(2,3,5)] assms(4)])
next
  fix i j assume ij: "i < n" "j < q"
  have "mat_mul (mat_mul A B) C ! i ! j = (\<Sum>l<p. mat_mul A B ! i ! l * C ! l ! j)"
    by (rule mat_mul_nth [OF is_mat_mat_mul [OF assms(1,2,4)] assms(3,5) ij])
  also have "\<dots> = (\<Sum>l<p. (\<Sum>k<m. A ! i ! k * B ! k ! l) * C ! l ! j)"
    by (intro sum.cong refl) (simp add: mat_mul_nth [OF assms(1,2,4) ij(1)])
  also have "\<dots> = (\<Sum>l<p. \<Sum>k<m. A ! i ! k * (B ! k ! l * C ! l ! j))"
    by (simp add: sum_distrib_right mult.assoc)
  also have "\<dots> = (\<Sum>k<m. \<Sum>l<p. A ! i ! k * (B ! k ! l * C ! l ! j))"
    by (rule sum.swap)
  also have "\<dots> = (\<Sum>k<m. A ! i ! k * (\<Sum>l<p. B ! k ! l * C ! l ! j))"
    by (simp add: sum_distrib_left)
  also have "\<dots> = (\<Sum>k<m. A ! i ! k * mat_mul B C ! k ! j)"
    by (intro sum.cong refl) (simp add: mat_mul_nth [OF assms(2,3,5) _ ij(2)])
  also have "\<dots> = mat_mul A (mat_mul B C) ! i ! j"
    by (rule mat_mul_nth [OF assms(1) is_mat_mat_mul [OF assms(2,3,5)] assms(4) ij, symmetric])
  finally show "mat_mul (mat_mul A B) C ! i ! j = mat_mul A (mat_mul B C) ! i ! j" .
qed

lemma transpose_mat_mul:
  assumes "is_mat n m A" "is_mat m p B" "0 < n" "0 < m" "0 < p"
  shows "transpose_mat (mat_mul A B) = mat_mul (transpose_mat B) (transpose_mat A)"
proof (rule mat_eqI)
  note AB = is_mat_mat_mul [OF assms(1,2,4)]
  note tA = is_mat_transpose [OF assms(1,3)]
  note tB = is_mat_transpose [OF assms(2,4)]
  show "is_mat p n (transpose_mat (mat_mul A B))"
    by (rule is_mat_transpose [OF AB assms(3)])
  show "is_mat p n (mat_mul (transpose_mat B) (transpose_mat A))"
    by (rule is_mat_mat_mul [OF tB tA assms(4)])
  fix i j assume ij: "i < p" "j < n"
  have "transpose_mat (mat_mul A B) ! i ! j = mat_mul A B ! j ! i"
    by (rule transpose_nth [OF AB assms(3) ij])
  also have "\<dots> = (\<Sum>k<m. A ! j ! k * B ! k ! i)"
    by (rule mat_mul_nth [OF assms(1,2,4) ij(2,1)])
  also have "\<dots> = (\<Sum>k<m. transpose_mat B ! i ! k * transpose_mat A ! k ! j)"
    by (intro sum.cong refl)
       (simp add: transpose_nth [OF assms(1,3) _ ij(2)] transpose_nth [OF assms(2,4) ij(1)])
  also have "\<dots> = mat_mul (transpose_mat B) (transpose_mat A) ! i ! j"
    by (rule mat_mul_nth [OF tB tA assms(4) ij, symmetric])
  finally show "transpose_mat (mat_mul A B) ! i ! j
      = mat_mul (transpose_mat B) (transpose_mat A) ! i ! j" .
qed

lemma eye_mat_mul:
  assumes "is_mat n m A" "0 < n"
  shows "mat_mul (eye n) A = A"
proof (rule mat_eqI [OF is_mat_mat_mul [OF is_mat_eye assms] assms(1)])
  fix i j assume ij: "i < n" "j < m"
  have "mat_mul (eye n) A ! i ! j = (\<Sum>k<n. eye n ! i ! k * A ! k ! j)"
    by (rule mat_mul_nth [OF is_mat_eye assms ij])
  also have "\<dots> = (\<Sum>k<n. if k = i then A ! k ! j else 0)"
    using ij by (intro sum.cong refl) (auto simp: eye_nth)
  also have "\<dots> = A ! i ! j" using ij by simp
  finally show "mat_mul (eye n) A ! i ! j = A ! i ! j" .
qed

lemma transpose_eye: "0 < n \<Longrightarrow> transpose_mat (eye n) = eye n"
  by (rule mat_eqI [OF is_mat_transpose [OF is_mat_eye] is_mat_eye])
     (auto simp: transpose_nth [OF is_mat_eye] eye_nth)

text \<open>From a factor C of S and a left inverse M of C: the product of M, S and the transpose of M is the identity.\<close>

lemma whitening_identity:
  assumes M: "is_mat k k M" and C: "is_mat k k C" and k: "0 < k"
    and fac: "mat_mul C (transpose_mat C) = S"
    and inv: "mat_mul M C = eye k"
  shows "mat_mul (mat_mul M S) (transpose_mat M) = eye k"
proof -
  note tC = is_mat_transpose [OF C k]
  note tM = is_mat_transpose [OF M k]
  have "mat_mul M S = mat_mul (mat_mul M C) (transpose_mat C)"
    unfolding fac [symmetric] by (rule mat_mul_assoc [OF M C tC k k, symmetric])
  also have "\<dots> = transpose_mat C" unfolding inv by (rule eye_mat_mul [OF tC k])
  finally have "mat_mul (mat_mul M S) (transpose_mat M)
      = mat_mul (transpose_mat C) (transpose_mat M)" by simp
  also have "\<dots> = transpose_mat (mat_mul M C)"
    by (rule transpose_mat_mul [OF M C k k k, symmetric])
  also have "\<dots> = eye k" unfolding inv by (rule transpose_eye [OF k])
  finally show ?thesis .
qed

lemma distinct_block_indices: "distinct (block_indices block_labels l)"
  by (simp add: block_indices_def)

lemma place_nth:
  assumes "distinct ind" "c < length ind"
  shows "place ind (ind ! c) = c"
proof -
  have "takeWhile (\<lambda>k. k \<noteq> ind ! c) ind = take c ind"
  proof (rule takeWhile_eq_take_P_nth)
    fix i assume "i < c" "i < length ind"
    with assms show "ind ! i \<noteq> ind ! c" by (simp add: nth_eq_iff_index_eq)
  next
    show "\<not> ind ! c \<noteq> ind ! c" by simp
  qed
  with assms(2) show ?thesis by (simp add: place_def)
qed

lemma place_less:
  "i \<in> set ind \<Longrightarrow> place ind i < length ind \<and> ind ! place ind i = i"
  by (induction ind) (auto simp: place_def)

lemma sum_block_reindex:
  "(\<Sum>k<length block_labels. if block_labels ! k = l then f k else (0::real))
     = (\<Sum>c<length (block_indices block_labels l). f (block_indices block_labels l ! c))"
proof -
  let ?n = "length block_labels" and ?ind = "block_indices block_labels l"
  have "(\<Sum>k<?n. if block_labels ! k = l then f k else (0::real))
      = sum_list (map (\<lambda>k. if block_labels ! k = l then f k else 0) [0..<?n])"
    by (simp add: interv_sum_list_conv_sum_set_nat atLeast0LessThan)
  also have "\<dots> = sum_list (map f ?ind)"
    unfolding block_indices_def by (rule sum_list_map_filter' [symmetric])
  also have "\<dots> = (\<Sum>c<length ?ind. f (?ind ! c))"
    by (simp add: sum_list_sum_nth atLeast0LessThan)
  finally show ?thesis .
qed

lemma is_mat_set_block: "is_mat n m L \<Longrightarrow> is_mat n m (set_block L ind M)"
  by (auto simp: is_mat_def set_block_def)

lemma set_block_nth:
  assumes "is_mat n m L" "i < n" "j < m"
  shows "set_block L ind M ! i ! j =
           (if i \<in> set ind \<and> j \<in> set ind then M ! place ind i ! place ind j else L ! i ! j)"
  using assms by (simp add: set_block_def is_matD)

lemma block_Linv_loop_result:
  assumes "\<forall>l \<in> set ls. \<exists>sub_A C M.
        get_block A (block_indices bl l) = Inr sub_A \<and> cholesky sub_A = Some C \<and>
        linalg_inv C = Some M \<and> is_mat (length sub_A) (length sub_A) M"
    and "distinct ls" "is_mat n m Linv"
  shows "\<exists>L. block_Linv_loop cholesky linalg_inv A bl ls Linv = Inr L \<and> is_mat n m L \<and>
     (\<forall>i<n. \<forall>j<m. L ! i ! j =
        (if i < length bl \<and> j < length bl \<and> bl ! i = bl ! j \<and> bl ! i \<in> set ls
         then inv_chol_block cholesky linalg_inv A bl (bl ! i)
                ! place (block_indices bl (bl ! i)) i ! place (block_indices bl (bl ! i)) j
         else Linv ! i ! j))"
  using assms
proof (induction ls arbitrary: Linv)
  case Nil
  then show ?case by simp
next
  case (Cons l ls)
  let ?ind = "block_indices bl l"
  from Cons.prems(1) obtain sub_A C M where
    s: "get_block A ?ind = Inr sub_A" "cholesky sub_A = Some C" "linalg_inv C = Some M"
       "is_mat (length sub_A) (length sub_A) M"
    by auto
  have Ml: "inv_chol_block cholesky linalg_inv A bl l = M"
    by (simp add: inv_chol_block_def s)
  let ?L' = "set_block Linv ?ind M"
  have step: "block_Linv_loop cholesky linalg_inv A bl (l # ls) Linv
      = block_Linv_loop cholesky linalg_inv A bl ls ?L'"
    by (simp add: s)
  have L': "is_mat n m ?L'" by (rule is_mat_set_block [OF Cons.prems(3)])
  from Cons.prems(1,2) have p: "\<forall>l \<in> set ls. \<exists>sub_A C M.
        get_block A (block_indices bl l) = Inr sub_A \<and> cholesky sub_A = Some C \<and>
        linalg_inv C = Some M \<and> is_mat (length sub_A) (length sub_A) M" "distinct ls"
    by simp_all
  from Cons.IH [OF p L'] obtain L where
    L: "block_Linv_loop cholesky linalg_inv A bl ls ?L' = Inr L" "is_mat n m L"
    and ent: "\<And>i j. i < n \<Longrightarrow> j < m \<Longrightarrow> L ! i ! j =
        (if i < length bl \<and> j < length bl \<and> bl ! i = bl ! j \<and> bl ! i \<in> set ls
         then inv_chol_block cholesky linalg_inv A bl (bl ! i)
                ! place (block_indices bl (bl ! i)) i ! place (block_indices bl (bl ! i)) j
         else ?L' ! i ! j)"
    by blast
  from Cons.prems(2) have lnot: "l \<notin> set ls" by simp
  have "L ! i ! j =
        (if i < length bl \<and> j < length bl \<and> bl ! i = bl ! j \<and> bl ! i \<in> set (l # ls)
         then inv_chol_block cholesky linalg_inv A bl (bl ! i)
                ! place (block_indices bl (bl ! i)) i ! place (block_indices bl (bl ! i)) j
         else Linv ! i ! j)" if ij: "i < n" "j < m" for i j
    unfolding ent [OF ij] set_block_nth [OF Cons.prems(3) ij]
    using lnot Ml by (auto simp: block_indices_iff)
  with L step show ?case by auto
qed

lemma get_block_shape:
  assumes "get_block A ind = Inr sub_A"
  shows "is_mat (length ind) (length ind) sub_A"
    and "\<And>c d. c < length ind \<Longrightarrow> d < length ind \<Longrightarrow> sub_A ! c ! d = A ! (ind ! c) ! (ind ! d)"
  using assms by (auto simp: get_block_def is_mat_def split: if_splits)

lemma zeros_nth: "i < n \<Longrightarrow> j < m \<Longrightarrow> zeros n m ! i ! j = 0"
  by (simp add: zeros_def)

lemma is_mat_zeros: "is_mat n m (zeros n m)"
  by (simp add: is_mat_def zeros_def)

lemma block_factor_facts:
  assumes cs: "cholesky_sound cholesky" and iv: "inv_sound linalg_inv"
    and bf: "blocks_factorable cholesky linalg_inv A bl" and l: "l \<in> set bl"
  shows "\<exists>S M. get_block A (block_indices bl l) = Inr S
      \<and> (\<exists>C. cholesky S = Some C \<and> linalg_inv C = Some M)
      \<and> is_mat (length (block_indices bl l)) (length (block_indices bl l)) S
      \<and> is_mat (length (block_indices bl l)) (length (block_indices bl l)) M
      \<and> inv_chol_block cholesky linalg_inv A bl l = M
      \<and> 0 < length (block_indices bl l)
      \<and> mat_mul (mat_mul M S) (transpose_mat M) = eye (length (block_indices bl l))"
proof -
  let ?ind = "block_indices bl l" and ?k = "length (block_indices bl l)"
  from bf l obtain S C M where
    s: "get_block A ?ind = Inr S" "cholesky S = Some C" "linalg_inv C = Some M"
    unfolding blocks_factorable_def by blast
  from get_block_shape(1) [OF s(1)] have S: "is_mat ?k ?k S" .
  then have lS: "length S = ?k" by (simp add: is_matD)
  from cs s(2) have "is_mat (length S) (length S) C \<and> mat_mul C (transpose_mat C) = S"
    unfolding cholesky_sound_def by blast
  then have C: "is_mat ?k ?k C" "mat_mul C (transpose_mat C) = S"
    unfolding lS by simp_all
  then have lC: "length C = ?k" by (simp add: is_matD)
  from iv s(3) have "is_mat (length C) (length C) M \<and> mat_mul M C = eye (length C)"
    unfolding inv_sound_def by blast
  then have M: "is_mat ?k ?k M" "mat_mul M C = eye ?k"
    unfolding lC by simp_all
  from l obtain i where "i < length bl" "bl ! i = l" by (auto simp: in_set_conv_nth)
  then have "i \<in> set ?ind" by (simp add: block_indices_iff)
  then have k: "0 < ?k" by (cases ?ind) auto
  have "mat_mul (mat_mul M S) (transpose_mat M) = eye ?k"
    by (rule whitening_identity [OF M(1) C(1) k C(2) M(2)])
  moreover have "inv_chol_block cholesky linalg_inv A bl l = M"
    by (simp add: inv_chol_block_def s)
  ultimately show ?thesis using s S M(1) k by blast
qed

lemma whitened_entry:
  assumes M: "is_mat k k M" and S: "is_mat k k S" and k: "0 < k"
    and w: "mat_mul (mat_mul M S) (transpose_mat M) = eye k"
    and ab: "a < k" "b < k"
  shows "(\<Sum>d<k. (\<Sum>c<k. M ! a ! c * S ! c ! d) * M ! b ! d) = (if a = b then 1 else 0)"
proof -
  note MS = is_mat_mat_mul [OF M S k]
  note tM = is_mat_transpose [OF M k]
  have "eye k ! a ! b = mat_mul (mat_mul M S) (transpose_mat M) ! a ! b" by (simp add: w)
  also have "\<dots> = (\<Sum>d<k. mat_mul M S ! a ! d * transpose_mat M ! d ! b)"
    by (rule mat_mul_nth [OF MS tM k ab])
  also have "\<dots> = (\<Sum>d<k. (\<Sum>c<k. M ! a ! c * S ! c ! d) * M ! b ! d)"
    by (intro sum.cong refl)
       (simp add: mat_mul_nth [OF M S k ab(1)] transpose_nth [OF M k _ ab(2)])
  finally show ?thesis using ab by (simp add: eye_nth)
qed

lemma block_Linv_entries:
  assumes A: "is_mat n n A" and len: "length bl = n"
    and cs: "cholesky_sound cholesky" and iv: "inv_sound linalg_inv"
    and bf: "blocks_factorable cholesky linalg_inv A bl"
  shows "\<exists>L. block_Linv cholesky linalg_inv A bl = Inr L \<and> is_mat n n L \<and>
     (\<forall>i<n. \<forall>j<n. L ! i ! j =
        (if bl ! i = bl ! j
         then inv_chol_block cholesky linalg_inv A bl (bl ! i)
                ! place (block_indices bl (bl ! i)) i ! place (block_indices bl (bl ! i)) j
         else 0))"
proof (cases "n = 0")
  case True
  with A len show ?thesis
    by (simp add: block_Linv_def is_mat_def zeros_def)
next
  case False
  then have n: "0 < n" by simp
  have nc: "ncols A = n" by (rule ncols_is_mat [OF A n])
  have lA: "length A = n" using A by (simp add: is_matD)
  have fac: "\<forall>l \<in> set (remdups bl). \<exists>sub_A C M.
        get_block A (block_indices bl l) = Inr sub_A \<and> cholesky sub_A = Some C \<and>
        linalg_inv C = Some M \<and> is_mat (length sub_A) (length sub_A) M"
  proof
    fix l assume "l \<in> set (remdups bl)"
    then have l: "l \<in> set bl" by simp
    from block_factor_facts [OF cs iv bf l] obtain S M C where
      "get_block A (block_indices bl l) = Inr S" "cholesky S = Some C" "linalg_inv C = Some M"
      "is_mat (length (block_indices bl l)) (length (block_indices bl l)) S"
      "is_mat (length (block_indices bl l)) (length (block_indices bl l)) M"
      by blast
    then show "\<exists>sub_A C M.
        get_block A (block_indices bl l) = Inr sub_A \<and> cholesky sub_A = Some C \<and>
        linalg_inv C = Some M \<and> is_mat (length sub_A) (length sub_A) M"
      by (auto simp: is_matD)
  qed
  from block_Linv_loop_result [OF fac distinct_remdups is_mat_zeros [of n n]]
  obtain L where L: "block_Linv_loop cholesky linalg_inv A bl (remdups bl) (zeros n n) = Inr L"
    "is_mat n n L"
    and ent: "\<And>i j. i < n \<Longrightarrow> j < n \<Longrightarrow> L ! i ! j =
        (if i < length bl \<and> j < length bl \<and> bl ! i = bl ! j \<and> bl ! i \<in> set (remdups bl)
         then inv_chol_block cholesky linalg_inv A bl (bl ! i)
                ! place (block_indices bl (bl ! i)) i ! place (block_indices bl (bl ! i)) j
         else zeros n n ! i ! j)"
    by blast
  have "L ! i ! j =
        (if bl ! i = bl ! j
         then inv_chol_block cholesky linalg_inv A bl (bl ! i)
                ! place (block_indices bl (bl ! i)) i ! place (block_indices bl (bl ! i)) j
         else 0)" if "i < n" "j < n" for i j
    unfolding ent [OF that] using that len by (simp add: zeros_nth)
  with L show ?thesis by (simp add: block_Linv_def lA nc)
qed

lemma block_row_sum:
  assumes len: "length bl = n"
    and Lrow: "\<And>k. k < n \<Longrightarrow> Li ! k =
        (if bl ! k = l then M ! p ! place (block_indices bl l) k else 0)"
  shows "(\<Sum>k<n. Li ! k * f k)
       = (\<Sum>c<length (block_indices bl l). M ! p ! c * (f (block_indices bl l ! c) :: real))"
proof -
  let ?ind = "block_indices bl l"
  have "(\<Sum>k<n. Li ! k * f k)
      = (\<Sum>k<length bl. if bl ! k = l then M ! p ! place ?ind k * f k else 0)"
    unfolding len by (intro sum.cong refl) (simp add: Lrow)
  also have "\<dots> = (\<Sum>c<length ?ind. M ! p ! place ?ind (?ind ! c) * f (?ind ! c))"
    by (rule sum_block_reindex)
  also have "\<dots> = (\<Sum>c<length ?ind. M ! p ! c * f (?ind ! c))"
    by (intro sum.cong refl) (simp add: place_nth [OF distinct_block_indices])
  finally show ?thesis .
qed

lemma block_Linv_product_entry:
  assumes A: "is_mat n n A" and len: "length bl = n" and n: "0 < n"
    and bd: "block_diagonal bl A"
    and cs: "cholesky_sound cholesky" and iv: "inv_sound linalg_inv"
    and bf: "blocks_factorable cholesky linalg_inv A bl"
    and L: "is_mat n n L"
    and ent: "\<And>i j. i < n \<Longrightarrow> j < n \<Longrightarrow> L ! i ! j =
        (if bl ! i = bl ! j
         then inv_chol_block cholesky linalg_inv A bl (bl ! i)
                ! place (block_indices bl (bl ! i)) i ! place (block_indices bl (bl ! i)) j
         else 0)"
    and ij: "i < n" "j < n"
  shows "mat_mul (mat_mul L A) (transpose_mat L) ! i ! j = (if i = j then 1 else 0)"
proof -
  let ?li = "bl ! i" and ?lj = "bl ! j"
  let ?indi = "block_indices bl (bl ! i)" and ?indj = "block_indices bl (bl ! j)"
  let ?Mi = "inv_chol_block cholesky linalg_inv A bl (bl ! i)"
  let ?Mj = "inv_chol_block cholesky linalg_inv A bl (bl ! j)"
  let ?pi = "place ?indi i" and ?pj = "place ?indj j"
  from ij len have mem: "i \<in> set ?indi" "j \<in> set ?indj" "?li \<in> set bl" "?lj \<in> set bl"
    by (simp_all add: block_indices_iff)
  note LA = is_mat_mat_mul [OF L A n]
  note tL = is_mat_transpose [OF L n]
  have rowi: "Li_k = (if bl ! k = ?li then ?Mi ! ?pi ! place ?indi k else 0)"
    if "k < n" "Li_k = L ! i ! k" for k Li_k
    using that ent [OF ij(1) that(1)] by auto
  have rowj: "L ! j ! m = (if bl ! m = ?lj then ?Mj ! ?pj ! place ?indj m else 0)"
    if "m < n" for m
    using that ent [OF ij(2) that] by auto
  have inner: "mat_mul L A ! i ! m = (\<Sum>c<length ?indi. ?Mi ! ?pi ! c * A ! (?indi ! c) ! m)"
    if m: "m < n" for m
  proof -
    have "mat_mul L A ! i ! m = (\<Sum>k<n. L ! i ! k * A ! k ! m)"
      by (rule mat_mul_nth [OF L A n ij(1) m])
    also have "\<dots> = (\<Sum>c<length ?indi. ?Mi ! ?pi ! c * A ! (?indi ! c) ! m)"
      by (rule block_row_sum [OF len]) (rule rowi, simp_all)
    finally show ?thesis .
  qed
  have "mat_mul (mat_mul L A) (transpose_mat L) ! i ! j
      = (\<Sum>m<n. mat_mul L A ! i ! m * transpose_mat L ! m ! j)"
    by (rule mat_mul_nth [OF LA tL n ij])
  also have "\<dots> = (\<Sum>m<n. L ! j ! m * mat_mul L A ! i ! m)"
    by (intro sum.cong refl) (simp add: transpose_nth [OF L n _ ij(2)] mult.commute)
  also have "\<dots> = (\<Sum>d<length ?indj. ?Mj ! ?pj ! d * mat_mul L A ! i ! (?indj ! d))"
    by (rule block_row_sum [OF len]) (rule rowj)
  also have "\<dots> = (\<Sum>d<length ?indj.
       (\<Sum>c<length ?indi. ?Mi ! ?pi ! c * A ! (?indi ! c) ! (?indj ! d)) * ?Mj ! ?pj ! d)"
  proof (intro sum.cong refl)
    fix d assume "d \<in> {..<length ?indj}"
    then have "?indj ! d \<in> set ?indj" by simp
    then have "?indj ! d < n" using len by (simp add: block_indices_iff)
    from inner [OF this]
    show "?Mj ! ?pj ! d * mat_mul L A ! i ! (?indj ! d)
        = (\<Sum>c<length ?indi. ?Mi ! ?pi ! c * A ! (?indi ! c) ! (?indj ! d)) * ?Mj ! ?pj ! d"
      by (simp add: mult.commute)
  qed
  finally have prod: "mat_mul (mat_mul L A) (transpose_mat L) ! i ! j
      = (\<Sum>d<length ?indj.
       (\<Sum>c<length ?indi. ?Mi ! ?pi ! c * A ! (?indi ! c) ! (?indj ! d)) * ?Mj ! ?pj ! d)" .
  show ?thesis
  proof (cases "?li = ?lj")
    case True
    from block_factor_facts [OF cs iv bf mem(3)] obtain S where
      S: "get_block A ?indi = Inr S" "is_mat (length ?indi) (length ?indi) S"
      and M: "is_mat (length ?indi) (length ?indi) ?Mi"
      and k: "0 < length ?indi"
      and w: "mat_mul (mat_mul ?Mi S) (transpose_mat ?Mi) = eye (length ?indi)"
      by blast
    from place_less [OF mem(1)] have pi: "?pi < length ?indi" "?indi ! ?pi = i" by simp_all
    from place_less [OF mem(2)] True have pj: "?pj < length ?indi" "?indi ! ?pj = j"
      by simp_all
    from prod True have "mat_mul (mat_mul L A) (transpose_mat L) ! i ! j
      = (\<Sum>d<length ?indi.
          (\<Sum>c<length ?indi. ?Mi ! ?pi ! c * A ! (?indi ! c) ! (?indi ! d)) * ?Mi ! ?pj ! d)"
      by simp
    also have "\<dots>
      = (\<Sum>d<length ?indi. (\<Sum>c<length ?indi. ?Mi ! ?pi ! c * S ! c ! d) * ?Mi ! ?pj ! d)"
      by (intro sum.cong refl arg_cong2 [where f = "(*)"])
         (simp_all add: get_block_shape(2) [OF S(1)])
    also have "\<dots> = (if ?pi = ?pj then 1 else 0)"
      by (rule whitened_entry [OF M S(2) k w pi(1) pj(1)])
    also have "\<dots> = (if i = j then 1 else 0)"
    proof -
      have "?pi = ?pj \<longleftrightarrow> i = j"
      proof
        assume "?pi = ?pj"
        then have "?indi ! ?pi = ?indi ! ?pj" by (rule arg_cong)
        then show "i = j" by (simp only: pi(2) pj(2))
      next
        assume "i = j"
        then show "?pi = ?pj" by (simp only:)
      qed
      then show ?thesis by (simp only:)
    qed
    finally show ?thesis .
  next
    case False
    have z: "A ! (?indi ! c) ! (?indj ! d) = 0" if "c < length ?indi" "d < length ?indj" for c d
    proof -
      from that have "?indi ! c \<in> set ?indi" "?indj ! d \<in> set ?indj" by simp_all
      then have "?indi ! c < length bl" "bl ! (?indi ! c) = ?li"
        "?indj ! d < length bl" "bl ! (?indj ! d) = ?lj"
        by (simp_all add: block_indices_iff)
      with bd False show ?thesis unfolding block_diagonal_def by metis
    qed
    have "mat_mul (mat_mul L A) (transpose_mat L) ! i ! j = 0"
      unfolding prod by (simp add: z)
    moreover from False have "i \<noteq> j" by auto
    ultimately show ?thesis by simp
  qed
qed

lemma cholesky_1x1_sound: "cholesky_sound cholesky_1x1"
  unfolding cholesky_sound_def
proof (intro allI impI)
  fix S C assume h: "cholesky_1x1 S = Some C"
  then obtain a where a: "S = [[a]]" "0 < a" "C = [[sqrt a]]"
    by (auto simp: cholesky_1x1_def split: list.splits if_splits)
  then show "is_mat (length S) (length S) C \<and> mat_mul C (transpose_mat C) = S"
    by (simp add: is_mat_def mat_mul_def transpose_mat_def ncols_def col_def dot_def)
qed

lemma inv_1x1_sound: "inv_sound inv_1x1"
  unfolding inv_sound_def
proof (intro allI impI)
  fix C M assume h: "inv_1x1 C = Some M"
  then obtain c where c: "C = [[c]]" "c \<noteq> 0" "M = [[1 / c]]"
    by (auto simp: inv_1x1_def split: list.splits if_splits)
  then show "is_mat (length C) (length C) M \<and> mat_mul M C = eye (length C)"
    by (simp add: is_mat_def mat_mul_def ncols_def col_def dot_def eye_def)
qed

text \<open>
  Claim C1. Let A be a square matrix that is block-diagonal for the labelling, and let the
  Cholesky factorisation and the inversion succeed on every block of A, as they do when A is
  symmetric positive-definite; the two library functions are assumed sound. Then
  \<open>block_Linv\<close> returns a matrix L with: the product of L, A and the transpose of L is
  the identity matrix, so it is the identity within each block and zero outside the
  blocks; L is zero outside the blocks; and the block of L for a label is the inverse of
  the Cholesky factor of the block of A for this label.
\<close>

theorem block_Linv_whitens:
  assumes "is_mat n n A" "length block_labels = n" "block_diagonal block_labels A"
    and "cholesky_sound cholesky" "inv_sound linalg_inv"
    and "blocks_factorable cholesky linalg_inv A block_labels"
  shows "\<exists>L. block_Linv cholesky linalg_inv A block_labels = Inr L \<and> is_mat n n L
     \<and> mat_mul (mat_mul L A) (transpose_mat L) = eye n
     \<and> (\<forall>i<n. \<forall>j<n. block_labels ! i \<noteq> block_labels ! j \<longrightarrow> L ! i ! j = 0)
     \<and> (\<forall>l \<in> set block_labels. get_block L (block_indices block_labels l)
            = Inr (inv_chol_block cholesky linalg_inv A block_labels l))"
proof -
  from block_Linv_entries [OF assms(1,2,4,5,6)] obtain L where
    L: "block_Linv cholesky linalg_inv A block_labels = Inr L" "is_mat n n L"
    and ent: "\<And>i j. i < n \<Longrightarrow> j < n \<Longrightarrow> L ! i ! j =
        (if block_labels ! i = block_labels ! j
         then inv_chol_block cholesky linalg_inv A block_labels (block_labels ! i)
                ! place (block_indices block_labels (block_labels ! i)) i
                ! place (block_indices block_labels (block_labels ! i)) j
         else 0)"
    by blast
  have prod: "mat_mul (mat_mul L A) (transpose_mat L) = eye n"
  proof (cases "n = 0")
    case True
    with L(2) assms(1) show ?thesis
      by (simp add: is_mat_def mat_mul_def transpose_mat_def eye_def ncols_def)
  next
    case False
    then have n: "0 < n" by simp
    show ?thesis
    proof (rule mat_eqI [OF _ is_mat_eye])
      show "is_mat n n (mat_mul (mat_mul L A) (transpose_mat L))"
        by (rule is_mat_mat_mul [OF is_mat_mat_mul [OF L(2) assms(1) n]
              is_mat_transpose [OF L(2) n] n])
      fix i j assume ij: "i < n" "j < n"
      show "mat_mul (mat_mul L A) (transpose_mat L) ! i ! j = eye n ! i ! j"
        unfolding eye_nth [OF ij]
        by (rule block_Linv_product_entry [OF assms(1,2) n assms(3,4,5,6) L(2) ent ij])
    qed
  qed
  have off: "\<forall>i<n. \<forall>j<n. block_labels ! i \<noteq> block_labels ! j \<longrightarrow> L ! i ! j = 0"
    by (simp add: ent)
  have blk: "get_block L (block_indices block_labels l)
            = Inr (inv_chol_block cholesky linalg_inv A block_labels l)"
    if l: "l \<in> set block_labels" for l
  proof -
    let ?ind = "block_indices block_labels l" and ?M = "inv_chol_block cholesky linalg_inv A block_labels l"
    from l assms(2) have n: "0 < n" by (cases block_labels) auto
    from block_factor_facts [OF assms(4,5,6) l]
    have M: "is_mat (length ?ind) (length ?ind) ?M" by blast
    have inb: "\<And>i. i \<in> set ?ind \<Longrightarrow> i < n \<and> block_labels ! i = l"
      using assms(2) by (simp add: block_indices_iff)
    have noerr: "\<not> (\<exists>i \<in> set ?ind. length L \<le> i \<or> ncols L \<le> i)"
    proof
      assume "\<exists>i \<in> set ?ind. length L \<le> i \<or> ncols L \<le> i"
      then obtain i where i: "i \<in> set ?ind" "n \<le> i"
        by (auto simp: ncols_is_mat [OF L(2) n] is_matD(1) [OF L(2)])
      from inb [OF i(1)] i(2) show False by simp
    qed
    have "map (\<lambda>i. map (\<lambda>j. L ! i ! j) ?ind) ?ind = ?M"
    proof (rule mat_eqI [OF _ M])
      show "is_mat (length ?ind) (length ?ind) (map (\<lambda>i. map (\<lambda>j. L ! i ! j) ?ind) ?ind)"
        by (simp add: is_mat_def)
      fix c d assume cd: "c < length ?ind" "d < length ?ind"
      then have m: "?ind ! c \<in> set ?ind" "?ind ! d \<in> set ?ind" by simp_all
      from inb [OF m(1)] inb [OF m(2)] cd
      show "map (\<lambda>i. map (\<lambda>j. L ! i ! j) ?ind) ?ind ! c ! d = ?M ! c ! d"
        by (simp add: ent place_nth [OF distinct_block_indices])
    qed
    with noerr show ?thesis by (simp add: get_block_def)
  qed
  from L prod off blk show ?thesis by blast
qed

theorem block_Linv_whitens_witness:
  "is_mat 2 2 [[4, 0], [0, 9]] \<and> length [''1'', ''2''] = 2
   \<and> block_diagonal [''1'', ''2''] [[4, 0], [0, 9]]
   \<and> cholesky_sound cholesky_1x1 \<and> inv_sound inv_1x1
   \<and> blocks_factorable cholesky_1x1 inv_1x1 [[4, 0], [0, 9]] [''1'', ''2'']
   \<and> block_Linv cholesky_1x1 inv_1x1 [[4, 0], [0, 9]] [''1'', ''2''] = Inr [[1 / 2, 0], [0, 1 / 3]]
   \<and> mat_mul (mat_mul [[1 / 2, 0], [0, 1 / 3]] [[4, 0], [0, 9]])
        (transpose_mat [[1 / 2, 0], [0, 1 / 3]]) = eye 2"
proof -
  have h1: "is_mat 2 2 [[4, 0], [0, 9::real]]" by (simp add: is_mat_def)
  have h2: "length [''1'', ''2''] = 2" by simp
  have h3: "block_diagonal [''1'', ''2''] [[4, 0], [0, 9]]"
    by (simp add: block_diagonal_def less_Suc_eq)
  have h6: "blocks_factorable cholesky_1x1 inv_1x1 [[4, 0], [0, 9]] [''1'', ''2'']"
    by (simp add: blocks_factorable_def block_indices_def get_block_def ncols_def
          cholesky_1x1_def inv_1x1_def upt_rec)
  have v: "block_Linv cholesky_1x1 inv_1x1 [[4, 0], [0, 9]] [''1'', ''2'']
      = Inr [[1 / 2, 0], [0, 1 / 3]]"
    by (simp add: block_Linv_def block_indices_def get_block_def ncols_def cholesky_1x1_def
          inv_1x1_def is_mat_def set_block_def zeros_def place_def upt_rec)
  from block_Linv_whitens [OF h1 h2 h3 cholesky_1x1_sound inv_1x1_sound h6]
  have "mat_mul (mat_mul [[1 / 2, 0], [0, 1 / 3]] [[4, 0], [0, 9]])
        (transpose_mat [[1 / 2, 0], [0, 1 / 3]]) = eye 2"
    unfolding v by simp
  with h1 h2 h3 h6 v cholesky_1x1_sound inv_1x1_sound show ?thesis by simp
qed

section \<open>Properties of the float64 arithmetic\<close>

lemma powi2_pos [simp]: "0 < (2::real) powi k"
  by (simp add: power_int_def)

lemma powi2_succ: "(2::real) powi (k + 1) = 2 * 2 powi k"
  by (simp add: power_int_add)

lemma powi2_pred: "(2::real) powi (k - 1) = 2 powi k / 2"
  by (simp add: power_int_diff)

lemma ilog2_bounds:
  "0 < x \<Longrightarrow> 2 powi (ilog2 x) \<le> x \<and> x < 2 powi (ilog2 x + 1)"
proof (induction x rule: ilog2.induct)
  case (1 x)
  show ?case
  proof (cases "x < 1")
    case True
    with 1 have ih: "2 powi (ilog2 (2 * x)) \<le> 2 * x \<and> 2 * x < 2 powi (ilog2 (2 * x) + 1)"
      by simp
    from True 1(3) have e: "ilog2 x = ilog2 (2 * x) - 1" by (subst ilog2.simps) simp
    from ih show ?thesis unfolding e by (simp add: powi2_pred powi2_succ)
  next
    case False
    show ?thesis
    proof (cases "2 \<le> x")
      case True
      with False 1 have ih: "2 powi (ilog2 (x / 2)) \<le> x / 2 \<and> x / 2 < 2 powi (ilog2 (x / 2) + 1)"
        by simp
      from True False 1(3) have e: "ilog2 x = ilog2 (x / 2) + 1" by (subst ilog2.simps) simp
      from ih powi2_succ [of "ilog2 (x / 2) + 1"] powi2_succ [of "ilog2 (x / 2)"]
      show ?thesis unfolding e by linarith
    next
      case b: False
      with False 1(3) have e: "ilog2 x = 0" by (subst ilog2.simps) simp
      from b False show ?thesis unfolding e by simp
    qed
  qed
qed

lemma powi2_less_iff: "(2::real) powi a < 2 powi b \<longleftrightarrow> a < b"
proof
  assume l: "(2::real) powi a < 2 powi b"
  show "a < b"
  proof (rule ccontr)
    assume "\<not> a < b"
    then have "b \<le> a" by simp
    then have "(2::real) powi b \<le> 2 powi a" by (intro power_int_increasing) simp_all
    with l show False by simp
  qed
next
  assume "a < b"
  then show "(2::real) powi a < 2 powi b" by (intro power_int_strict_increasing) simp_all
qed

lemma powi2_le_iff: "(2::real) powi a \<le> 2 powi b \<longleftrightarrow> a \<le> b"
  using powi2_less_iff [of b a] by (simp add: not_less [symmetric] del: not_less)

lemma ilog2_unique:
  assumes "2 powi k \<le> x" "x < 2 powi (k + 1)"
  shows "ilog2 x = k"
proof -
  have pos: "0 < x" using assms(1) powi2_pos [of k] by linarith
  from ilog2_bounds [OF pos] have b: "2 powi (ilog2 x) \<le> x" "x < 2 powi (ilog2 x + 1)"
    by simp_all
  from assms(1) b(2) have "(2::real) powi k < 2 powi (ilog2 x + 1)" by linarith
  then have 1: "k < ilog2 x + 1" by (simp only: powi2_less_iff)
  from assms(2) b(1) have "(2::real) powi (ilog2 x) < 2 powi (k + 1)" by linarith
  then have 2: "ilog2 x < k + 1" by (simp only: powi2_less_iff)
  from 1 2 show ?thesis by simp
qed


lemma rne_of_int [simp]: "rne (of_int n) = n"
  by (simp add: rne_def)

lemma rne_zero [simp]: "rne 0 = 0"
  by (simp add: rne_def)

lemma powi2_mult: "(2::real) powi a * 2 powi b = 2 powi (b + a)"
  by (simp add: power_int_add [symmetric] add.commute)

lemma rne_ge_int: "of_int n \<le> x \<Longrightarrow> n \<le> rne x"
proof -
  assume "of_int n \<le> x"
  then have "n \<le> \<lfloor>x\<rfloor>" by (simp add: le_floor_iff)
  then show ?thesis by (simp add: rne_def Let_def)
qed

lemma rne_le_int: "x \<le> of_int n \<Longrightarrow> rne x \<le> n"
proof -
  assume a: "x \<le> of_int n"
  show ?thesis
  proof (cases "x = of_int n")
    case True
    then show ?thesis by simp
  next
    case False
    with a have "x < of_int n" by simp
    then have "\<lfloor>x\<rfloor> < n" by (simp add: floor_less_iff)
    then show ?thesis by (simp add: rne_def Let_def)
  qed
qed

lemma rne_nearest:
  assumes "\<bar>x - of_int n\<bar> < 1 / 2"
  shows "rne x = n"
proof (cases "of_int n \<le> x")
  case True
  with assms have "\<lfloor>x\<rfloor> = n" by (intro floor_unique) linarith+
  with assms True show ?thesis by (simp add: rne_def Let_def)
next
  case False
  with assms have f: "\<lfloor>x\<rfloor> = n - 1" by (intro floor_unique) (simp, linarith+)
  with assms False show ?thesis by (simp add: rne_def Let_def)
qed

lemma rne_tie_even:
  assumes "\<bar>x - of_int n\<bar> = 1 / 2" "even n"
  shows "rne x = n"
proof (cases "of_int n \<le> x")
  case True
  with assms have "\<lfloor>x\<rfloor> = n" by (intro floor_unique) linarith+
  with assms True show ?thesis by (simp add: rne_def Let_def)
next
  case False
  with assms have f: "\<lfloor>x\<rfloor> = n - 1" by (intro floor_unique) (simp, linarith+)
  with assms False show ?thesis by (simp add: rne_def Let_def)
qed

lemma rne_error: "\<bar>of_int (rne x) - x\<bar> \<le> 1 / 2"
  unfolding rne_def Let_def by (auto; linarith)

lemma rne_char:
  "\<bar>x - of_int (rne x)\<bar> < 1 / 2 \<or> (\<bar>x - of_int (rne x)\<bar> = 1 / 2 \<and> even (rne x))"
proof -
  have f: "of_int \<lfloor>x\<rfloor> \<le> x" "x < of_int \<lfloor>x\<rfloor> + 1" by linarith+
  show ?thesis
  proof (cases "x - of_int \<lfloor>x\<rfloor> < 1 / 2")
    case True
    then have "rne x = \<lfloor>x\<rfloor>" by (simp add: rne_def Let_def)
    with True f show ?thesis by simp
  next
    case False
    show ?thesis
    proof (cases "1 / 2 < x - of_int \<lfloor>x\<rfloor>")
      case True
      with False have "rne x = \<lfloor>x\<rfloor> + 1" by (simp add: rne_def Let_def)
      with True f show ?thesis by simp
    next
      case b: False
      with False have h: "x - of_int \<lfloor>x\<rfloor> = 1 / 2" by simp
      show ?thesis
      proof (cases "even \<lfloor>x\<rfloor>")
        case True
        with h have "rne x = \<lfloor>x\<rfloor>" by (simp add: rne_def Let_def)
        with h True show ?thesis by simp
      next
        case False
        with h have "rne x = \<lfloor>x\<rfloor> + 1" by (simp add: rne_def Let_def)
        with h False show ?thesis by simp
      qed
    qed
  qed
qed

lemma rne_eqI:
  assumes "\<bar>x - of_int n\<bar> < 1 / 2 \<or> (\<bar>x - of_int n\<bar> = 1 / 2 \<and> even n)"
  shows "rne x = n"
  using assms rne_nearest [of x n] rne_tie_even [of x n] by blast

lemma rne_minus: "rne (- x) = - rne x"
proof (rule rne_eqI)
  have "\<bar>- x - of_int (- rne x)\<bar> = \<bar>x - of_int (rne x)\<bar>" by simp
  with rne_char [of x]
  show "\<bar>- x - of_int (- rne x)\<bar> < 1 / 2
      \<or> (\<bar>- x - of_int (- rne x)\<bar> = 1 / 2 \<and> even (- rne x))"
    by simp
qed

lemma grid64_minus: "grid64 (- x) = - grid64 x"
  by (simp add: grid64_def ulp_exp_def rne_minus)





lemma rne_grid_ge:
  assumes "0 \<le> j" "2 powi k \<le> x"
  shows "2 powi k \<le> of_int (rne (x / 2 powi (k - j))) * (2::real) powi (k - j)"
proof -
  have split: "(2::real) powi k = 2 powi j * 2 powi (k - j)"
    by (simp add: power_int_add [symmetric])
  have j: "(2::real) powi j = of_int (2 ^ nat j)"
    using assms(1) by (simp add: power_int_def)
  have "of_int (2 ^ nat j) = (2::real) powi k / 2 powi (k - j)"
    unfolding j [symmetric] by (subst split) simp
  also have "\<dots> \<le> x / 2 powi (k - j)" using assms(2) by (simp add: divide_right_mono)
  finally have "2 ^ nat j \<le> rne (x / 2 powi (k - j))" by (rule rne_ge_int)
  then have "(of_int (2 ^ nat j) :: real) \<le> of_int (rne (x / 2 powi (k - j)))"
    by (simp only: of_int_le_iff)
  then have "of_int (2 ^ nat j) * 2 powi (k - j)
      \<le> of_int (rne (x / 2 powi (k - j))) * (2::real) powi (k - j)"
    by (rule mult_right_mono) simp
  then show ?thesis unfolding j [symmetric] split [symmetric] .
qed



lemma ulp_exp_eqI:
  assumes "2 powi (e + 52) \<le> \<bar>x\<bar>" "\<bar>x\<bar> < 2 powi (e + 53)" "- 1074 \<le> e"
  shows "ulp_exp x = e"
proof -
  from assms(2) have "\<bar>x\<bar> < 2 powi (e + 52 + 1)" by (simp add: add.commute add.left_commute)
  with assms(1) have "ilog2 \<bar>x\<bar> = e + 52" by (rule ilog2_unique)
  with assms(3) show ?thesis by (simp add: ulp_exp_def)
qed

lemma ulp_exp_subnormal:
  assumes "x \<noteq> 0" "\<bar>x\<bar> < 2 powi (- 1022)"
  shows "ulp_exp x = - 1074"
proof -
  from assms(1) have "0 < \<bar>x\<bar>" by simp
  from ilog2_bounds [OF this] assms(2) have "(2::real) powi (ilog2 \<bar>x\<bar>) < 2 powi (- 1022)"
    by linarith
  then have "ilog2 \<bar>x\<bar> < - 1022" by (simp only: powi2_less_iff)
  then show ?thesis by (simp add: ulp_exp_def)
qed

lemma round64_eqI:
  assumes "2 powi (e + 52) \<le> \<bar>x\<bar>" "\<bar>x\<bar> < 2 powi (e + 53)" "- 1074 \<le> e"
    and "\<bar>x / 2 powi e - of_int m\<bar> < 1 / 2 \<or> (\<bar>x / 2 powi e - of_int m\<bar> = 1 / 2 \<and> even m)"
    and "\<bar>of_int m * 2 powi e\<bar> < (2::real) powi 1024"
  shows "round64 x = Fin (of_int m * 2 powi e)"
proof -
  have u: "ulp_exp x = e" by (rule ulp_exp_eqI [OF assms(1-3)])
  have "rne (x / 2 powi e) = m" by (rule rne_eqI [OF assms(4)])
  then have "grid64 x = of_int m * 2 powi e" by (simp add: grid64_def u)
  with assms(5) show ?thesis unfolding round64_def by (simp add: abs_less_iff)
qed

lemma round64_subnormal_eqI:
  assumes "\<bar>x\<bar> < 2 powi (- 1022)"
    and "\<bar>x / 2 powi (- 1074) - of_int m\<bar> < 1 / 2
       \<or> (\<bar>x / 2 powi (- 1074) - of_int m\<bar> = 1 / 2 \<and> even m)"
  shows "round64 x = Fin (of_int m * 2 powi (- 1074))"
proof -
  have g: "grid64 x = of_int m * 2 powi (- 1074)"
  proof (cases "x = 0")
    case True
    with assms(2) have "\<bar>real_of_int m\<bar> < 1" by auto
    then have "m = 0" by linarith
    with True show ?thesis by (simp add: grid64_def)
  next
    case False
    have "rne (x / 2 powi (- 1074)) = m" by (rule rne_eqI [OF assms(2)])
    then show ?thesis by (simp add: grid64_def ulp_exp_subnormal [OF False assms(1)])
  qed
  from rne_char [of "x / 2 powi (- 1074)"] rne_eqI [OF assms(2)]
  have "\<bar>x / 2 powi (- 1074) - of_int m\<bar> \<le> 1 / 2" by auto
  then have "\<bar>of_int m\<bar> \<le> \<bar>x / 2 powi (- 1074)\<bar> + 1 / 2" by linarith
  also have "\<bar>x / 2 powi (- 1074)\<bar> = \<bar>x\<bar> / 2 powi (- 1074)" by simp
  also have "\<dots> < 2 powi (- 1022) / 2 powi (- 1074)"
    using assms(1) by (simp add: divide_strict_right_mono)
  also have "(2::real) powi (- 1022) / 2 powi (- 1074) = 2 powi 52"
    by (simp add: power_int_diff [symmetric])
  finally have "\<bar>real_of_int m\<bar> * 2 powi (- 1074) < (2 powi 52 + 1 / 2) * 2 powi (- 1074)"
    by (simp add: mult_strict_right_mono)
  also have "\<dots> \<le> 2 powi 53 * 2 powi (- 1074)"
    by (intro mult_right_mono) simp_all
  also have "\<dots> = 2 powi (- 1074 + 53)" by (rule powi2_mult)
  also have "\<dots> < 2 powi 1024" by (simp add: powi2_less_iff)
  finally have "\<bar>of_int m * 2 powi (- 1074)\<bar> < (2::real) powi 1024"
    by (simp add: abs_mult)
  with g show ?thesis unfolding round64_def by (simp add: abs_less_iff)
qed

lemma round64_overflow:
  assumes "2 powi 1024 \<le> x"
  shows "round64 x = PInf"
proof -
  from assms powi2_pos [of 1024] have pos: "0 < \<bar>x\<bar>" "\<bar>x\<bar> = x" by linarith+
  let ?k = "ilog2 \<bar>x\<bar>"
  from ilog2_bounds [OF pos(1)] assms pos(2) have "(2::real) powi 1024 < 2 powi (?k + 1)"
    by linarith
  then have "1024 < ?k + 1" by (simp only: powi2_less_iff)
  then have k: "1024 \<le> ?k" by simp
  then have u: "ulp_exp x = ?k - 52" by (simp add: ulp_exp_def)
  from ilog2_bounds [OF pos(1)] pos(2) have "2 powi ?k \<le> x" by simp
  from rne_grid_ge [OF _ this, of 52] have "2 powi ?k \<le> grid64 x"
    by (simp add: grid64_def u)
  moreover from k have "(2::real) powi 1024 \<le> 2 powi ?k" by (simp only: powi2_le_iff)
  ultimately show ?thesis unfolding round64_def by simp
qed

lemma round64_minus:
  "round64 (- x) = (case round64 x of NaN \<Rightarrow> NaN | NInf \<Rightarrow> PInf | PInf \<Rightarrow> NInf | Fin y \<Rightarrow> Fin (- y))"
  using powi2_pos [of 1024] by (auto simp: round64_def grid64_minus)

lemma round64_zero [simp]: "round64 0 = Fin 0"
  by (simp add: round64_def grid64_def)

lemma round64_exact:
  assumes "x = of_int m * 2 powi e" "\<bar>m\<bar> < 2 ^ 53" "- 1074 \<le> e" "e \<le> 971"
  shows "round64 x = Fin x"
proof (cases "m = 0")
  case True
  with assms(1) show ?thesis by simp
next
  case False
  then have pos: "0 < \<bar>x\<bar>" using assms(1) by simp
  have ax: "\<bar>x\<bar> = of_int \<bar>m\<bar> * 2 powi e" by (simp add: assms(1) abs_mult)
  from assms(2) have "real_of_int \<bar>m\<bar> < of_int (2 ^ 53)" by (simp only: of_int_less_iff)
  then have "real_of_int \<bar>m\<bar> < 2 powi 53" by simp
  then have "\<bar>x\<bar> < 2 powi 53 * 2 powi e" unfolding ax by (simp add: mult_strict_right_mono)
  also have "\<dots> = 2 powi (e + 53)" by (rule powi2_mult)
  finally have xb: "\<bar>x\<bar> < 2 powi (e + 53)" .
  from ilog2_bounds [OF pos] xb have "(2::real) powi ilog2 \<bar>x\<bar> < 2 powi (e + 53)" by linarith
  then have "ilog2 \<bar>x\<bar> < e + 53" by (simp only: powi2_less_iff)
  with assms(3) have le: "ulp_exp x \<le> e" by (simp add: ulp_exp_def)
  define u where "u = ulp_exp x"
  define d where "d = nat (e - u)"
  have "(2::real) powi e = 2 powi (e - u) * 2 powi u"
    by (simp add: power_int_add [symmetric])
  also have "(2::real) powi (e - u) = of_int (2 ^ d)"
    using le by (simp add: power_int_def d_def u_def)
  finally have pe: "(2::real) powi e = of_int (2 ^ d) * 2 powi u" .
  have "x = of_int (m * 2 ^ d) * 2 powi u"
    unfolding assms(1) pe by simp
  then have q: "x / 2 powi u = of_int (m * 2 ^ d)" by simp
  then have "rne (x / 2 powi u) = m * 2 ^ d" by (simp only: rne_of_int)
  then have "grid64 x = of_int (m * 2 ^ d) * 2 powi u" by (simp add: grid64_def u_def)
  also have "\<dots> = x / 2 powi u * 2 powi u" by (simp only: q)
  also have "\<dots> = x" by simp
  finally have g: "grid64 x = x" .
  from assms(4) have "e + 53 \<le> 1024" by simp
  then have "(2::real) powi (e + 53) \<le> 2 powi 1024" by (simp only: powi2_le_iff)
  with xb have "\<bar>x\<bar> < 2 powi 1024" by linarith
  then show ?thesis unfolding round64_def g by (simp add: abs_less_iff)
qed

lemma grid64_abs_le:
  assumes "\<bar>x\<bar> \<le> of_int n * 2 powi ulp_exp x"
  shows "\<bar>grid64 x\<bar> \<le> of_int n * 2 powi ulp_exp x"
proof -
  let ?u = "ulp_exp x"
  from assms have "\<bar>x\<bar> / 2 powi ?u \<le> of_int n" by (simp add: field_simps)
  then have "x / 2 powi ?u \<le> of_int n" "of_int (- n) \<le> x / 2 powi ?u"
    by (simp_all add: abs_le_iff field_simps)
  then have "rne (x / 2 powi ?u) \<le> n" "- n \<le> rne (x / 2 powi ?u)"
    by (auto intro: rne_le_int rne_ge_int)
  then have "\<bar>real_of_int (rne (x / 2 powi ?u))\<bar> \<le> of_int n" by linarith
  then have "\<bar>real_of_int (rne (x / 2 powi ?u))\<bar> * 2 powi ?u \<le> of_int n * 2 powi ?u"
    by (rule mult_right_mono) simp
  then show ?thesis by (simp add: grid64_def abs_mult)
qed




lemma is_float64_zero [simp]: "is_float64 0"
  by (simp add: is_float64_def)



lemma real_of_Fin [simp]: "real_of (Fin v) = v"
  by (simp add: real_of_def)



lemma round64_literal_atol: "round64 (1 / 10 ^ 8) = Fin (3022314549036573 / 2 ^ 78)"
  using round64_eqI [of "- 79" "1 / 10 ^ 8" 6044629098073146] by simp

text \<open>Integers below 2^53 are floats.\<close>

lemma round64_of_int: "\<bar>n\<bar> < 2 ^ 53 \<Longrightarrow> round64 (of_int n) = Fin (of_int n)"
  by (rule round64_exact [of _ n 0]) simp_all

lemma round64_numeral:
  "(numeral k :: int) < 2 ^ 53 \<Longrightarrow> round64 (numeral k) = Fin (numeral k)"
  using round64_of_int [of "numeral k"] by simp

lemma round64_neg_numeral:
  "(numeral k :: int) < 2 ^ 53 \<Longrightarrow> round64 (- numeral k) = Fin (- numeral k)"
  using round64_of_int [of "- numeral k"] by simp

lemma round64_one [simp]: "round64 1 = Fin 1"
  using round64_of_int [of 1] by simp

lemma round64_neg_one [simp]: "round64 (- 1) = Fin (- 1)"
  using round64_of_int [of "- 1"] by simp

section \<open>Properties of regularize_error_cov\<close>























section \<open>Properties of build_training\<close>

lemma bool_index_error: "bool_index a msk = Inl e \<Longrightarrow> e = IndexError"
  by (auto simp: bool_index_def split: if_splits)

lemma int_index_error: "int_index a idx = Inl e \<Longrightarrow> e = IndexError"
  by (auto simp: int_index_def split: if_splits)

lemma int_index_Inr: "int_index a idx = Inr r \<Longrightarrow> r = map (\<lambda>i. a ! i) idx"
  by (auto simp: int_index_def split: if_splits)

lemma get_block_error: "get_block A ind = Inl e \<Longrightarrow> e = IndexError"
  by (auto simp: get_block_def split: if_splits)

lemma loc_CHR_error: "loc_CHR gene_annot_df genes = Inl e \<Longrightarrow> e = KeyError"
  by (induction genes arbitrary: e) (auto split: option.splits sum.splits)

lemma block_Linv_loop_error:
  "block_Linv_loop cholesky linalg_inv A bl ls Linv = Inl e \<Longrightarrow> e \<noteq> AssertionError"
  by (induction ls arbitrary: Linv)
     (auto split: sum.splits option.splits if_splits dest: get_block_error)

lemma block_AB_loop_error:
  "block_AB_loop A bl B ls new_B = Inl e \<Longrightarrow> e \<noteq> AssertionError"
  by (induction ls arbitrary: new_B) (auto split: sum.splits if_splits dest: get_block_error)

lemma block_Av_loop_error:
  "block_Av_loop A bl B ls new_B = Inl e \<Longrightarrow> e \<noteq> AssertionError"
  by (induction ls arbitrary: new_B) (auto split: sum.splits if_splits dest: get_block_error)

lemma whiten_error:
  assumes "whiten cholesky linalg_inv error_cov gene_inds gene_annot_df genes sub_Y X intercept
             = Inl e"
  shows "e \<noteq> AssertionError"
  using assms unfolding whiten_def block_Linv_def block_AB_def block_Av_def
  by (auto split: sum.splits
           dest: get_block_error loc_CHR_error block_Linv_loop_error block_AB_loop_error
                 block_Av_loop_error)

lemma project_out_V_error: "project_out_V linalg_inv M V = Inl e \<Longrightarrow> e = LinAlgError"
  by (auto simp: project_out_V_def Let_def split: option.splits)

lemma project_intercept_error:
  "project_intercept linalg_inv sub_Y X intercept = Inl e \<Longrightarrow> e \<noteq> AssertionError"
  by (auto simp: project_intercept_def split: sum.splits dest: project_out_V_error)

lemma rows_at_indices:
  assumes "get_indices_in_target_order rows genes = Inr idx"
  shows "map (\<lambda>i. rows ! i) idx = genes"
proof (rule nth_equalityI)
  show "length (map (\<lambda>i. rows ! i) idx) = length genes"
    using get_indices_Inr(1) [OF assms] by simp
  fix k assume "k < length (map (\<lambda>i. rows ! i) idx)"
  then have k: "k < length genes" using get_indices_Inr(1) [OF assms] by simp
  from get_indices_Inr(2) [OF assms k] k get_indices_Inr(1) [OF assms]
  show "map (\<lambda>i. rows ! i) idx ! k = genes ! k" by simp
qed

lemma build_training_no_AssertionError:
  "build_training cholesky linalg_inv mat cols rows Y Y_indices error_cov gene_annot_df
       training_Y_gene_inds project_out_intercept \<noteq> Inl AssertionError"
proof
  assume a: "build_training cholesky linalg_inv mat cols rows Y Y_indices error_cov gene_annot_df
       training_Y_gene_inds project_out_intercept = Inl AssertionError"
  show False
  proof (cases "bool_index Y_indices training_Y_gene_inds")
    case (Inl e)
    with a bool_index_error [OF Inl] show False by (simp add: build_training_def)
  next
    case genes: (Inr training_genes)
    show False
    proof (cases "bool_index Y training_Y_gene_inds")
      case (Inl e)
      with a genes bool_index_error [OF Inl] show False by (simp add: build_training_def)
    next
      case subY: (Inr sub_Y)
      show False
      proof (cases "get_indices_in_target_order rows training_genes")
        case (Inl e)
        with a genes subY lookup_all_error [of _ training_genes e] show False
          by (simp add: build_training_def get_indices_in_target_order_def)
      next
        case idx: (Inr X_train_inds)
        show False
        proof (cases "int_index mat X_train_inds")
          case (Inl e)
          with a genes subY idx int_index_error [OF Inl] show False
            by (simp add: build_training_def)
        next
          case X: (Inr X)
          show False
          proof (cases "int_index rows X_train_inds")
            case (Inl e)
            with a genes subY idx X int_index_error [OF Inl] show False
              by (simp add: build_training_def)
          next
            case r: (Inr rows_at_inds)
            from int_index_Inr [OF r] rows_at_indices [OF idx]
            have eq: "rows_at_inds = training_genes" by simp
            let ?w = "(case error_cov of
              None \<Rightarrow> Inr (sub_Y, X, ones (length sub_Y))
            | Some ec \<Rightarrow> whiten cholesky linalg_inv ec training_Y_gene_inds gene_annot_df
                          training_genes sub_Y X (ones (length sub_Y)))"
            show False
            proof (cases ?w)
              case (Inl e)
              then have "e \<noteq> AssertionError"
                by (cases error_cov) (auto dest: whiten_error)
              with a genes subY idx X r eq Inl show False
                by (simp add: build_training_def)
            next
              case (Inr t)
              obtain sub_Y' X' intercept where t: "t = (sub_Y', X', intercept)"
                by (cases t) auto
              from a genes subY idx X r eq Inr t
              have "project_out_intercept \<and>
                  project_intercept linalg_inv sub_Y' X' intercept = Inl AssertionError"
                by (simp add: build_training_def split: if_splits)
              with project_intercept_error show False by blast
            qed
          qed
        qed
      qed
    qed
  qed
qed

text \<open>
  Claim C10. \<open>get_indices_in_target_order\<close> raises KeyError exactly when a target name
  does not occur in the reference list, and raises nothing else. When it returns, the
  result has one position per target name, each position lies in the reference list, the
  reference list holds the target name there, and it does not hold it at any later
  position (the last occurrence is used). Hence the assertion of \<open>build_training\<close> that
  the row names at these positions are the training genes never fails: whatever its
  arguments are, \<open>build_training\<close> does not raise AssertionError.
\<close>

theorem get_indices_in_target_order_lookup:
  "((get_indices_in_target_order ref_list target_names = Inl KeyError)
       \<longleftrightarrow> \<not> set target_names \<subseteq> set ref_list)
   \<and> (\<forall>e. get_indices_in_target_order ref_list target_names = Inl e \<longrightarrow> e = KeyError)
   \<and> (\<forall>idx. get_indices_in_target_order ref_list target_names = Inr idx \<longrightarrow>
         length idx = length target_names \<and>
         (\<forall>k<length target_names.
            idx ! k < length ref_list \<and> ref_list ! (idx ! k) = target_names ! k \<and>
            (\<forall>j. idx ! k < j \<and> j < length ref_list \<longrightarrow> ref_list ! j \<noteq> target_names ! k)))
   \<and> build_training cholesky linalg_inv mat cols rows Y Y_indices error_cov gene_annot_df
        training_Y_gene_inds project_out_intercept \<noteq> Inl AssertionError"
proof (intro conjI allI impI)
  show "(get_indices_in_target_order ref_list target_names = Inl KeyError)
       \<longleftrightarrow> \<not> set target_names \<subseteq> set ref_list"
    by (rule get_indices_KeyError_iff)
next
  fix e assume "get_indices_in_target_order ref_list target_names = Inl e"
  then show "e = KeyError"
    unfolding get_indices_in_target_order_def by (rule lookup_all_error)
next
  fix idx assume h: "get_indices_in_target_order ref_list target_names = Inr idx"
  show "length idx = length target_names" by (rule get_indices_Inr(1) [OF h])
  fix k assume k: "k < length target_names"
  from get_indices_Inr(2) [OF h k]
  show "idx ! k < length ref_list" "ref_list ! (idx ! k) = target_names ! k"
    by simp_all
  fix j assume "idx ! k < j \<and> j < length ref_list"
  with get_indices_Inr(2) [OF h k] show "ref_list ! j \<noteq> target_names ! k" by blast
next
  show "build_training cholesky linalg_inv mat cols rows Y Y_indices error_cov gene_annot_df
        training_Y_gene_inds project_out_intercept \<noteq> Inl AssertionError"
    by (rule build_training_no_AssertionError)
qed

theorem get_indices_in_target_order_lookup_witness:
  "get_indices_in_target_order [''g2'', ''g1'', ''g3'', ''g1''] [''g1'', ''g2''] = Inr [3, 0]
   \<and> [''g2'', ''g1'', ''g3'', ''g1''] ! ([3, 0] ! 0) = [''g1'', ''g2''] ! 0
   \<and> [''g2'', ''g1'', ''g3'', ''g1''] ! ([3, 0] ! 1) = [''g1'', ''g2''] ! 1
   \<and> \<not> set [''g7''] \<subseteq> set [''g2'', ''g1'']
   \<and> get_indices_in_target_order [''g2'', ''g1''] [''g7''] = Inl KeyError"
proof -
  have h: "get_indices_in_target_order [''g2'', ''g1'', ''g3'', ''g1''] [''g1'', ''g2'']
      = Inr [3, 0]"
    by (simp add: get_indices_in_target_order_def)
  have n: "\<not> set [''g7''] \<subseteq> set [''g2'', ''g1'']" by simp
  note t1 = get_indices_in_target_order_lookup
    [of "[''g2'', ''g1'', ''g3'', ''g1'']" "[''g1'', ''g2'']" "\<lambda>S. None" "\<lambda>S. None"
        "[]" "[]" "[]" "[]" "[]" None Map.empty "[]" True]
  note t2 = get_indices_in_target_order_lookup
    [of "[''g2'', ''g1'']" "[''g7'']" "\<lambda>S. None" "\<lambda>S. None"
        "[]" "[]" "[]" "[]" "[]" None Map.empty "[]" True]
  from t1 h have "\<forall>k<length [''g1'', ''g2''].
      [''g2'', ''g1'', ''g3'', ''g1''] ! ([3, 0] ! k) = [''g1'', ''g2''] ! k"
    by blast
  then have a: "[''g2'', ''g1'', ''g3'', ''g1''] ! ([3, 0] ! 0) = [''g1'', ''g2''] ! 0"
    and b: "[''g2'', ''g1'', ''g3'', ''g1''] ! ([3, 0] ! 1) = [''g1'', ''g2''] ! 1"
    by simp_all
  from t2 n have c: "get_indices_in_target_order [''g2'', ''g1''] [''g7''] = Inl KeyError"
    by blast
  from h a b n c show ?thesis by blast
qed

section \<open>Properties of project_out_covariates\<close>










section \<open>Properties of batch_marginal_ols\<close>

lemma length_sum_sq_X [simp]: "length (sum_sq_X np_sum X) = ncols X"
  by (simp add: sum_sq_X_def)

lemma length_near_const_0 [simp]: "length (near_const_0 np_sum X) = ncols X"
  by (simp add: near_const_0_def)

lemma length_sum_sq_X_safe [simp]: "length (sum_sq_X_safe np_sum X) = ncols X"
  by (simp add: sum_sq_X_safe_def)













text \<open>
  Rounding and overflow are part of the result. For the single column (1e200, 0) the sum
  of squares overflows to infinity: the column is not close to zero, the coefficient and
  the standard error are zero, their quotient and the p-value are NaN.
\<close>

lemma batch_marginal_ols_overflow_example:
  "batch_marginal_ols seq_sum seq_dot seq_mean seq_var chi2_sf_ends [Fin 1, Fin 3]
     [[Fin (5883593420661338 * 2 ^ 612)], [Fin 0]]
   = Inr ([Fin 0], [Fin 0], [NaN], [Fin (- 4)])"
proof -
  define x :: real where "x = 5883593420661338 * 2 ^ 612"
  have sq: "round64 (x * x) = PInf"
    unfolding x_def by (rule round64_overflow) simp
  have xr: "round64 x = Fin x"
    unfolding x_def using round64_exact [of "5883593420661338 * 2 ^ 612" 5883593420661338 612]
    by simp
  have "batch_marginal_ols seq_sum seq_dot seq_mean seq_var chi2_sf_ends [Fin 1, Fin 3]
      [[Fin x], [Fin 0]] = Inr ([Fin 0], [Fin 0], [NaN], [Fin (- 4)])"
    by (simp add: batch_marginal_ols_def Let_def sum_sq_X_safe_def near_const_0_def
          sum_sq_X_def ncols_def col_def np_square_def seq_sum_def seq_dot_def seq_mean_def
          seq_var_def isclose_zero_def set_nan_def fsub_def signed_inf_def chi2_sf_ends_def
          sq xr round64_numeral round64_neg_numeral)
  then show ?thesis unfolding x_def .
qed

end
